theory Spec2Isabelle
  imports Main "HOL-Library.AList" "HOL-Library.Sublist"
begin

section \<open>JavaScript values of a configuration object\<close>

text \<open>
  The configuration object handed to \<open>arglet\<close> is plain data: mapping objects, arrays
  and primitive leaves. An object is an association list in insertion order (JavaScript
  keeps that order); \<open>map_of\<close> reads the first entry of a key and \<open>AList.update\<close>
  overwrites it in place or appends a new key, as a property write does.

  This reading has the own properties of the objects and nothing else: it is exact for
  flags whose paths lead through own properties. Properties inherited from
  \<open>Object.prototype\<close> and \<open>Array.prototype\<close> (\<open>toString\<close>, \<open>constructor\<close>, \<open>__proto__\<close>, ...)
  are followed by the reading on a store further down. Functions, symbols, big integers
  and cyclic or shared object graphs are outside this reading. Strings are lists of
  8-bit characters.
\<close>

datatype jsval =
    Undefined
  | Null
  | Bool bool
  | Num int
  | Str string
  | Arr "jsval list"
  | Obj "(string \<times> jsval) list"

text \<open>The results of \<open>typeof\<close>; of the values above none is a \<open>function\<close>.\<close>

datatype jstype = TUndefined | TObject | TBoolean | TNumber | TString | TFunction

fun typeof :: "jsval \<Rightarrow> jstype" where
  "typeof Undefined = TUndefined"
| "typeof Null = TObject"
| "typeof (Bool b) = TBoolean"
| "typeof (Num n) = TNumber"
| "typeof (Str s) = TString"
| "typeof (Arr xs) = TObject"
| "typeof (Obj kvs) = TObject"

text \<open>Truthiness, as \<open>current && ...\<close> tests it.\<close>

fun truthy :: "jsval \<Rightarrow> bool" where
  "truthy Undefined = False"
| "truthy Null = False"
| "truthy (Bool b) = b"
| "truthy (Num n) = (n \<noteq> 0)"
| "truthy (Str s) = (s \<noteq> [])"
| "truthy (Arr xs) = True"
| "truthy (Obj kvs) = True"

text \<open>
  What a call produces: a value, a thrown \<open>Error\<close> with its message, or \<open>Unmodelled\<close>
  where the code performs a write that the embedding does not follow: a write to an
  array other than to one of its existing elements (its \<open>length\<close>, whose conversion
  \<open>ToNumber\<close> is floating point; an index out of range; a named property), or a write to
  a primitive, which the type \<open>Record<string, unknown>\<close> of the schema excludes.
\<close>

datatype 'a outcome = Returns 'a | Throws string | Unmodelled

subsection \<open>Strings\<close>

text \<open>\<open>s.startsWith(p)\<close>.\<close>

definition startsWith :: "string \<Rightarrow> string \<Rightarrow> bool" where
  "startsWith s p = (take (length p) s = p)"

text \<open>
  \<open>s.split(c)\<close> for a separator of one character: every occurrence splits, empty
  pieces are kept, and the empty string gives one empty piece.
\<close>

fun splitOn :: "char \<Rightarrow> string \<Rightarrow> string list" where
  "splitOn c [] = [[]]"
| "splitOn c (x # xs) =
     (if x = c then [] # splitOn c xs
      else (case splitOn c xs of
              [] \<Rightarrow> [[x]]
            | w # ws \<Rightarrow> (x # w) # ws))"

text \<open>\<open>s.includes(c)\<close> for one character.\<close>

definition includesChar :: "string \<Rightarrow> char \<Rightarrow> bool" where
  "includesChar s c = (c \<in> set s)"

subsection \<open>Own properties\<close>

definition is_digit :: "char \<Rightarrow> bool" where
  "is_digit c = (48 \<le> (of_char c :: nat) \<and> (of_char c :: nat) \<le> 57)"

definition parse_nat :: "string \<Rightarrow> nat" where
  "parse_nat s = foldl (\<lambda>n c. 10 * n + ((of_char c :: nat) - 48)) 0 s"

text \<open>
  An array has the own property \<open>k\<close> when \<open>k\<close> is the canonical decimal numeral of an
  index below its length (arrays of plain data have no holes), or \<open>length\<close>.
\<close>

definition array_index :: "'a list \<Rightarrow> string \<Rightarrow> nat option" where
  "array_index xs k =
     (if k \<noteq> [] \<and> list_all is_digit k \<and> (length k = 1 \<or> hd k \<noteq> CHR ''0'')
         \<and> parse_nat k < length xs
      then Some (parse_nat k) else None)"

text \<open>\<open>key in current\<close>, for \<open>current\<close> an object or an array.\<close>

fun has_property :: "string \<Rightarrow> jsval \<Rightarrow> bool" where
  "has_property key (Obj kvs) = (map_of kvs key \<noteq> None)"
| "has_property key (Arr xs) = (key = ''length'' \<or> array_index xs key \<noteq> None)"
| "has_property key v = False"

text \<open>
  \<open>current[key]\<close>, for \<open>current\<close> an object or an array; both callers test
  \<open>typeof current === "object"\<close> first, so a primitive is never read.
\<close>

fun get_property :: "jsval \<Rightarrow> string \<Rightarrow> jsval" where
  "get_property (Obj kvs) key = (case map_of kvs key of Some v \<Rightarrow> v | None \<Rightarrow> Undefined)"
| "get_property (Arr xs) key =
     (if key = ''length'' then Num (int (length xs))
      else (case array_index xs key of Some i \<Rightarrow> xs ! i | None \<Rightarrow> Undefined))"
| "get_property v key = Undefined"

text \<open>\<open>currentNode[segment] = value\<close>.\<close>

fun set_property :: "jsval \<Rightarrow> string \<Rightarrow> jsval \<Rightarrow> jsval outcome" where
  "set_property (Obj kvs) key v = Returns (Obj (AList.update key v kvs))"
| "set_property (Arr xs) key v =
     (case array_index xs key of Some i \<Rightarrow> Returns (Arr (xs[i := v])) | None \<Rightarrow> Unmodelled)"
| "set_property u key v = Unmodelled"

section \<open>Options\<close>

datatype separator = Comma | Pipe

fun separator_char :: "separator \<Rightarrow> char" where
  "separator_char Comma = CHR '',''"
| "separator_char Pipe = CHR ''|''"

text \<open>
  A property of the options object that the caller may omit, or pass with a value that
  may be \<open>undefined\<close> (\<open>None\<close>): the spread \<open>...userOptions\<close> copies a property that is
  present even when its value is \<open>undefined\<close>.
\<close>

datatype 'a optional = Omitted | Passed "'a option"

record ArgletOptions =
  debug :: "bool optional"
  arraySeparator :: "separator optional"

text \<open>The resolved options \<open>opts\<close>; \<open>None\<close> is \<open>undefined\<close>.\<close>

record resolved_options =
  opt_debug :: "bool option"
  opt_arraySeparator :: "separator option"

text \<open>What the function reads of the process.\<close>

record process =
  argv :: "string list"
  env_DEBUG :: "string option"

fun overlay :: "'a option \<Rightarrow> 'a optional \<Rightarrow> 'a option" where
  "overlay d Omitted = d"
| "overlay d (Passed v) = v"

definition resolve_options :: "process \<Rightarrow> ArgletOptions \<Rightarrow> resolved_options" where
  "resolve_options proc userOptions =
     \<lparr> opt_debug = overlay (Some (case env_DEBUG proc of None \<Rightarrow> False | Some s \<Rightarrow> s \<noteq> []))
                      (debug userOptions),
       opt_arraySeparator = overlay (Some Comma) (arraySeparator userOptions) \<rparr>"

section \<open>The working copy\<close>

text \<open>
  \<open>structuredClone(data)\<close>: on immutable values a deep copy is the value itself. That
  the copy shares no object with \<open>data\<close> is the subject of the store model below, and so
  is data that holds one object under two keys, which a value of this reading cannot
  express.
\<close>

definition structuredClone :: "jsval \<Rightarrow> jsval" where
  "structuredClone v = v"

subsection \<open>\<open>resolveValueAtPath\<close> and \<open>hasConfigPath\<close>\<close>

definition resolve_step :: "jsval \<Rightarrow> string \<Rightarrow> jsval" where
  "resolve_step current key =
     (if truthy current \<and> typeof current = TObject \<and> has_property key current
      then get_property current key
      else Undefined)"

text \<open>\<open>path.split(".")\<close>.\<close>

definition segments :: "string \<Rightarrow> string list" where
  "segments path = splitOn (CHR ''.'') path"

definition resolveValueAtPath :: "jsval \<Rightarrow> string \<Rightarrow> jsval" where
  "resolveValueAtPath result path = foldl resolve_step result (segments path)"

definition hasConfigPath :: "jsval \<Rightarrow> string \<Rightarrow> bool" where
  "hasConfigPath result path = (resolveValueAtPath result path \<noteq> Undefined)"

subsection \<open>\<open>assignValueAtPath\<close>\<close>

text \<open>
  The loop over \<open>segments\<close> from index \<open>i\<close>, as a function of the remaining segments and
  of \<open>currentNode\<close>; it returns \<open>currentNode\<close> as the loop leaves it. Descending into a
  child and mutating it there is, on values, writing the updated child back.
\<close>

fun assign_loop :: "string list \<Rightarrow> jsval \<Rightarrow> jsval \<Rightarrow> jsval outcome" where
  "assign_loop [] v currentNode = Returns currentNode"
| "assign_loop (segment # rest) v currentNode =
     (if segment = [] then Returns currentNode
      else if rest = [] then set_property currentNode segment v
      else
        (let child = get_property currentNode segment;
             next = (if typeof child \<noteq> TObject \<or> child = Null then Obj [] else child)
         in case assign_loop rest v next of
              Returns updated \<Rightarrow> set_property currentNode segment updated
            | Throws e \<Rightarrow> Throws e
            | Unmodelled \<Rightarrow> Unmodelled))"

definition assignValueAtPath :: "string \<Rightarrow> jsval \<Rightarrow> jsval \<Rightarrow> jsval outcome" where
  "assignValueAtPath path v result = assign_loop (segments path) v result"

text \<open>
  How many times the walk of \<open>assignValueAtPath\<close> executes \<open>currentNode[segment] = {}\<close>
  (line 143), the branch that replaces a node that is not an object.
\<close>

fun fresh_nodes :: "string list \<Rightarrow> jsval \<Rightarrow> nat" where
  "fresh_nodes [] currentNode = 0"
| "fresh_nodes (segment # rest) currentNode =
     (if segment = [] then 0
      else if rest = [] then 0
      else
        (let child = get_property currentNode segment
         in if typeof child \<noteq> TObject \<or> child = Null
            then Suc (fresh_nodes rest (Obj []))
            else fresh_nodes rest child))"

subsection \<open>\<open>parseFlag\<close>\<close>

text \<open>\<open>isDisabledFlag ? flagName.slice(3) : flagName\<close>.\<close>

definition normalizedPath :: "string \<Rightarrow> string" where
  "normalizedPath flagName = (if startsWith flagName ''no-'' then drop 3 flagName else flagName)"

definition parseFlag ::
  "resolved_options \<Rightarrow> string option \<Rightarrow> string option \<Rightarrow> jsval \<Rightarrow> jsval outcome" where
  "parseFlag opts flagName rawValue result =
     (case flagName of
        None \<Rightarrow> Returns result
      | Some name \<Rightarrow>
          if name = [] then Returns result
          else
            (let isDisabledFlag = startsWith name ''no-'';
                 path = normalizedPath name
             in if \<not> hasConfigPath result path then Returns result
                else
                  (let existingValue = resolveValueAtPath result path;
                       existingValueType = typeof existingValue
                   in if isDisabledFlag then
                        (if existingValueType \<noteq> TBoolean
                         then Throws (''--no-'' @ path @ '' is only valid for boolean options'')
                         else assignValueAtPath path (Bool False) result)
                      else
                        (case rawValue of
                           None \<Rightarrow>
                             (if existingValueType \<noteq> TBoolean
                              then Throws (''--'' @ path @ '' requires a value'')
                              else assignValueAtPath path (Bool True) result)
                         | Some raw \<Rightarrow>
                             (case opt_arraySeparator opts of
                                Some sep \<Rightarrow>
                                  if includesChar raw (separator_char sep)
                                  then assignValueAtPath path
                                         (Arr (map Str (splitOn (separator_char sep) raw))) result
                                  else assignValueAtPath path (Str raw) result
                              | None \<Rightarrow> assignValueAtPath path (Str raw) result)))))"

subsection \<open>The argument loop\<close>

text \<open>\<open>xs[i]\<close> of a JavaScript array: \<open>undefined\<close> (\<open>None\<close>) out of range.\<close>

definition at_index :: "'a list \<Rightarrow> nat \<Rightarrow> 'a option" where
  "at_index xs i = (if i < length xs then Some (xs ! i) else None)"

text \<open>
  One iteration dispatches a token to \<open>parseFlag\<close>; \<open>rest\<close> are the tokens after it. The
  token taken as a value stays in \<open>rest\<close>: the loop does not skip it.
\<close>

definition dispatch :: "resolved_options \<Rightarrow> string \<Rightarrow> string list \<Rightarrow> jsval \<Rightarrow> jsval outcome" where
  "dispatch opts token rest result =
     (let rawArgument = drop 2 token
      in if includesChar rawArgument (CHR ''='') then
           (let parts = splitOn (CHR ''='') rawArgument
            in parseFlag opts (at_index parts 0) (at_index parts 1) result)
         else
           (let nextToken = at_index rest 0;
                flagValue = (case nextToken of
                               None \<Rightarrow> None
                             | Some t \<Rightarrow> if t \<noteq> [] \<and> \<not> startsWith t ''--'' then Some t else None)
            in parseFlag opts (Some rawArgument) flagValue result))"

fun argument_loop :: "resolved_options \<Rightarrow> string list \<Rightarrow> jsval \<Rightarrow> jsval outcome" where
  "argument_loop opts [] result = Returns result"
| "argument_loop opts (token # rest) result =
     (if \<not> startsWith token ''--'' then argument_loop opts rest result
      else
        (case dispatch opts token rest result of
           Returns result' \<Rightarrow> argument_loop opts rest result'
         | Throws e \<Rightarrow> Throws e
         | Unmodelled \<Rightarrow> Unmodelled))"

subsection \<open>\<open>arglet\<close>\<close>

text \<open>The second argument of the overloads: absent, the token array, or the options.\<close>

datatype second_argument = Absent | Tokens "string list" | Options ArgletOptions

definition no_options :: ArgletOptions where
  "no_options = \<lparr> debug = Omitted, arraySeparator = Omitted \<rparr>"

definition arglet ::
  "process \<Rightarrow> jsval \<Rightarrow> second_argument \<Rightarrow> ArgletOptions option \<Rightarrow> jsval outcome" where
  "arglet proc data argsOrOptions explicitOptions =
     (let result = structuredClone data;
          args = (case argsOrOptions of Tokens a \<Rightarrow> a | _ \<Rightarrow> drop 2 (argv proc));
          userOptions = (case argsOrOptions of
                           Tokens a \<Rightarrow> (case explicitOptions of Some opts \<Rightarrow> opts | None \<Rightarrow> no_options)
                         | Options opts \<Rightarrow> opts
                         | Absent \<Rightarrow> no_options);
          opts = resolve_options proc userOptions
      in argument_loop opts args result)"

section \<open>The same code on a store of mutable objects\<close>

text \<open>
  Whether \<open>arglet\<close> mutates its argument depends on which objects its writes reach, so
  this section gives the code a second reading in which objects live in a store: a list
  of objects, an address being an index, and allocation appending at the end. A value
  is a primitive, a built-in function or a reference to an object of the store.

  This reading also follows the prototype chain, as the operator \<open>in\<close> and property
  reads and writes do. An object has own properties and a prototype; a property is a
  value or the accessor \<open>__proto__\<close> that \<open>Object.prototype\<close> carries, whose getter
  returns the prototype of the object it is read on and whose setter replaces it. The
  realm names the two built-in prototype objects: every object literal and every clone
  of a plain object gets the first as its prototype, every array the second.
\<close>

type_synonym address = nat

datatype ref_value =
    RUndefined
  | RNull
  | RBool bool
  | RNum int
  | RStr string
  | RFun string
  | Ref address

datatype property = Data ref_value | ProtoAccessor

datatype heap_object =
    HObject "(string \<times> property) list" ref_value
  | HArray "ref_value list" ref_value

type_synonym heap = "heap_object list"

record realm =
  object_prototype :: address
  array_prototype :: address

fun typeof_ref :: "ref_value \<Rightarrow> jstype" where
  "typeof_ref RUndefined = TUndefined"
| "typeof_ref RNull = TObject"
| "typeof_ref (RBool b) = TBoolean"
| "typeof_ref (RNum n) = TNumber"
| "typeof_ref (RStr s) = TString"
| "typeof_ref (RFun f) = TFunction"
| "typeof_ref (Ref a) = TObject"

fun truthy_ref :: "ref_value \<Rightarrow> bool" where
  "truthy_ref RUndefined = False"
| "truthy_ref RNull = False"
| "truthy_ref (RBool b) = b"
| "truthy_ref (RNum n) = (n \<noteq> 0)"
| "truthy_ref (RStr s) = (s \<noteq> [])"
| "truthy_ref (RFun f) = True"
| "truthy_ref (Ref a) = True"

text \<open>The object at an address; \<open>None\<close> for an address that is not allocated.\<close>

definition object_at :: "heap \<Rightarrow> address \<Rightarrow> heap_object option" where
  "object_at h a = (if a < length h then Some (h ! a) else None)"

fun prototype_of :: "heap_object \<Rightarrow> ref_value" where
  "prototype_of (HObject kvs proto) = proto"
| "prototype_of (HArray xs proto) = proto"

fun with_prototype :: "heap_object \<Rightarrow> ref_value \<Rightarrow> heap_object" where
  "with_prototype (HObject kvs proto) v = HObject kvs v"
| "with_prototype (HArray xs proto) v = HArray xs v"

text \<open>The own property of an object under a key; an array owns its elements and \<open>length\<close>.\<close>

fun own_property :: "heap_object \<Rightarrow> string \<Rightarrow> property option" where
  "own_property (HObject kvs proto) key = map_of kvs key"
| "own_property (HArray xs proto) key =
     (if key = ''length'' then Some (Data (RNum (int (length xs))))
      else (case array_index xs key of Some i \<Rightarrow> Some (Data (xs ! i)) | None \<Rightarrow> None))"

text \<open>
  The property that a key finds on an object or further up its prototype chain. The
  chain of a JavaScript object is finite and has no cycle, so it is no longer than the
  store, which bounds the search.
\<close>

fun find_property :: "nat \<Rightarrow> heap \<Rightarrow> ref_value \<Rightarrow> string \<Rightarrow> property option" where
  "find_property 0 h v key = None"
| "find_property (Suc n) h (Ref a) key =
     (case object_at h a of
        None \<Rightarrow> None
      | Some obj \<Rightarrow>
          (case own_property obj key of
             Some p \<Rightarrow> Some p
           | None \<Rightarrow> find_property n h (prototype_of obj) key))"
| "find_property (Suc n) h v key = None"

text \<open>\<open>key in current\<close>, for \<open>current\<close> an object.\<close>

definition has_property_ref :: "heap \<Rightarrow> string \<Rightarrow> ref_value \<Rightarrow> bool" where
  "has_property_ref h key current = (find_property (length h) h current key \<noteq> None)"

text \<open>\<open>current[key]\<close>, for \<open>current\<close> an object.\<close>

definition get_property_ref :: "heap \<Rightarrow> ref_value \<Rightarrow> string \<Rightarrow> ref_value" where
  "get_property_ref h current key =
     (case find_property (length h) h current key of
        Some (Data v) \<Rightarrow> v
      | Some ProtoAccessor \<Rightarrow>
          (case current of
             Ref a \<Rightarrow> (case object_at h a of Some obj \<Rightarrow> prototype_of obj | None \<Rightarrow> RUndefined)
           | _ \<Rightarrow> RUndefined)
      | None \<Rightarrow> RUndefined)"

text \<open>
  What a run leaves: the store as it is when the run ends, and how it ended. A run that
  throws leaves the store of that moment; a run that reaches a write the embedding does
  not follow stops before that write.
\<close>

type_synonym run = "heap \<times> unit outcome"

text \<open>Whether the prototype chain that starts at a value passes through an address.\<close>

fun chain_reaches :: "nat \<Rightarrow> heap \<Rightarrow> ref_value \<Rightarrow> address \<Rightarrow> bool" where
  "chain_reaches 0 h v a = False"
| "chain_reaches (Suc n) h (Ref b) a =
     (b = a \<or> (case object_at h b of
                  None \<Rightarrow> False
                | Some obj \<Rightarrow> chain_reaches n h (prototype_of obj) a))"
| "chain_reaches (Suc n) h v a = False"

text \<open>
  The setter of \<open>__proto__\<close> on the object at address \<open>a\<close>: a value that is neither an
  object nor \<open>null\<close> is ignored; \<open>Object.prototype\<close> refuses a new prototype and a chain
  that would come back to the object is refused, both with a \<open>TypeError\<close>.
\<close>

definition set_prototype :: "realm \<Rightarrow> heap \<Rightarrow> address \<Rightarrow> ref_value \<Rightarrow> run" where
  "set_prototype realm h a v =
     (case object_at h a of
        None \<Rightarrow> (h, Unmodelled)
      | Some obj \<Rightarrow>
          if typeof_ref v = TFunction then (h, Unmodelled)
          else if typeof_ref v \<noteq> TObject then (h, Returns ())
          else if v = prototype_of obj then (h, Returns ())
          else if a = object_prototype realm
            then (h, Throws ''TypeError: Immutable prototype object cannot have its prototype set'')
          else if chain_reaches (length h) h v a
            then (h, Throws ''TypeError: Cyclic __proto__ value'')
          else (h[a := with_prototype obj v], Returns ()))"

text \<open>Writing an own property, new or old.\<close>

fun write_own :: "heap \<Rightarrow> address \<Rightarrow> heap_object \<Rightarrow> string \<Rightarrow> ref_value \<Rightarrow> run" where
  "write_own h a (HObject kvs proto) key v =
     (h[a := HObject (AList.update key (Data v) kvs) proto], Returns ())"
| "write_own h a (HArray xs proto) key v =
     (case array_index xs key of
        Some i \<Rightarrow> (h[a := HArray (xs[i := v]) proto], Returns ())
      | None \<Rightarrow> (h, Unmodelled))"

text \<open>
  \<open>currentNode[segment] = value\<close>, with \<open>currentNode\<close> the object at address \<open>a\<close>: an own
  property is overwritten; otherwise a setter found up the chain is called, and without
  one the object gets the property as its own.
\<close>

definition set_property_at :: "realm \<Rightarrow> heap \<Rightarrow> address \<Rightarrow> string \<Rightarrow> ref_value \<Rightarrow> run" where
  "set_property_at realm h a key v =
     (case object_at h a of
        None \<Rightarrow> (h, Unmodelled)
      | Some obj \<Rightarrow>
          (case own_property obj key of
             Some (Data old) \<Rightarrow> write_own h a obj key v
           | Some ProtoAccessor \<Rightarrow> set_prototype realm h a v
           | None \<Rightarrow>
               (case find_property (length h) h (prototype_of obj) key of
                  Some ProtoAccessor \<Rightarrow> set_prototype realm h a v
                | Some (Data inherited) \<Rightarrow> write_own h a obj key v
                | None \<Rightarrow> write_own h a obj key v)))"

subsection \<open>\<open>structuredClone\<close>\<close>

text \<open>
  The structured clone of a value of plain data is a fresh object graph of the same
  shape, shared references and cycles included, whose objects have the prototypes of
  the realm. The model copies every object of the store to the address \<open>length h\<close>
  further on and moves the references inside the copies along; the clone of a reference
  is the reference to the copy. Copies of objects that the value does not reach are
  garbage that no reference of the program leads to.
\<close>

fun relocate :: "nat \<Rightarrow> ref_value \<Rightarrow> ref_value" where
  "relocate n (Ref a) = Ref (a + n)"
| "relocate n v = v"

fun relocate_property :: "nat \<Rightarrow> property \<Rightarrow> property" where
  "relocate_property n (Data v) = Data (relocate n v)"
| "relocate_property n ProtoAccessor = ProtoAccessor"

fun relocate_object :: "realm \<Rightarrow> nat \<Rightarrow> heap_object \<Rightarrow> heap_object" where
  "relocate_object realm n (HObject kvs proto) =
     HObject (map (\<lambda>(k, p). (k, relocate_property n p)) kvs) (Ref (object_prototype realm))"
| "relocate_object realm n (HArray xs proto) =
     HArray (map (relocate n) xs) (Ref (array_prototype realm))"

definition structuredClone_store :: "realm \<Rightarrow> heap \<Rightarrow> ref_value \<Rightarrow> heap \<times> ref_value" where
  "structuredClone_store realm h v =
     (h @ map (relocate_object realm (length h)) h, relocate (length h) v)"

subsection \<open>The closures of \<open>arglet\<close> over \<open>result\<close>\<close>

definition resolve_step_ref :: "heap \<Rightarrow> ref_value \<Rightarrow> string \<Rightarrow> ref_value" where
  "resolve_step_ref h current key =
     (if truthy_ref current \<and> typeof_ref current = TObject \<and> has_property_ref h key current
      then get_property_ref h current key
      else RUndefined)"

definition resolveValueAtPath_store :: "heap \<Rightarrow> ref_value \<Rightarrow> string \<Rightarrow> ref_value" where
  "resolveValueAtPath_store h result path = foldl (resolve_step_ref h) result (segments path)"

definition hasConfigPath_store :: "heap \<Rightarrow> ref_value \<Rightarrow> string \<Rightarrow> bool" where
  "hasConfigPath_store h result path = (resolveValueAtPath_store h result path \<noteq> RUndefined)"

text \<open>
  The loop of \<open>assignValueAtPath\<close> with \<open>currentNode\<close> an address: line 143 allocates the
  fresh \<open>{}\<close> and stores a reference to it, line 146 moves \<open>currentNode\<close> to what
  \<open>currentNode[segment]\<close> then reads.
\<close>

fun assign_loop_store :: "realm \<Rightarrow> string list \<Rightarrow> ref_value \<Rightarrow> address \<Rightarrow> heap \<Rightarrow> run" where
  "assign_loop_store realm [] v currentNode h = (h, Returns ())"
| "assign_loop_store realm (segment # rest) v currentNode h =
     (if segment = [] then (h, Returns ())
      else if rest = [] then set_property_at realm h currentNode segment v
      else
        (let child = get_property_ref h (Ref currentNode) segment
         in if typeof_ref child \<noteq> TObject \<or> child = RNull then
              (case set_property_at realm (h @ [HObject [] (Ref (object_prototype realm))])
                      currentNode segment (Ref (length h)) of
                 (h', Returns u) \<Rightarrow>
                   (case get_property_ref h' (Ref currentNode) segment of
                      Ref a \<Rightarrow> assign_loop_store realm rest v a h'
                    | _ \<Rightarrow> (h', Unmodelled))
               | (h', stop) \<Rightarrow> (h', stop))
            else
              (case child of
                 Ref a \<Rightarrow> assign_loop_store realm rest v a h
               | _ \<Rightarrow> (h, Unmodelled))))"

text \<open>
  Whether that walk comes to execute line 143. Up to the first execution of it the walk
  writes nothing, so the store it reads is the one it started in.
\<close>

fun reaches_replacement :: "heap \<Rightarrow> string list \<Rightarrow> ref_value \<Rightarrow> bool" where
  "reaches_replacement h [] currentNode = False"
| "reaches_replacement h (segment # rest) currentNode =
     (if segment = [] then False
      else if rest = [] then False
      else
        (let child = get_property_ref h currentNode segment
         in if typeof_ref child \<noteq> TObject \<or> child = RNull then True
            else reaches_replacement h rest child))"

definition assignValueAtPath_store ::
  "realm \<Rightarrow> string \<Rightarrow> ref_value \<Rightarrow> ref_value \<Rightarrow> heap \<Rightarrow> run" where
  "assignValueAtPath_store realm path v result h =
     (case result of
        Ref a \<Rightarrow> assign_loop_store realm (segments path) v a h
      | _ \<Rightarrow> (h, Unmodelled))"

text \<open>\<open>rawValue.split(sep)\<close> allocates the array it returns.\<close>

definition parseFlag_store ::
  "realm \<Rightarrow> resolved_options \<Rightarrow> string option \<Rightarrow> string option \<Rightarrow> ref_value \<Rightarrow> heap \<Rightarrow> run" where
  "parseFlag_store realm opts flagName rawValue result h =
     (case flagName of
        None \<Rightarrow> (h, Returns ())
      | Some name \<Rightarrow>
          if name = [] then (h, Returns ())
          else
            (let isDisabledFlag = startsWith name ''no-'';
                 path = normalizedPath name
             in if \<not> hasConfigPath_store h result path then (h, Returns ())
                else
                  (let existingValue = resolveValueAtPath_store h result path;
                       existingValueType = typeof_ref existingValue
                   in if isDisabledFlag then
                        (if existingValueType \<noteq> TBoolean
                         then (h, Throws (''--no-'' @ path @ '' is only valid for boolean options''))
                         else assignValueAtPath_store realm path (RBool False) result h)
                      else
                        (case rawValue of
                           None \<Rightarrow>
                             (if existingValueType \<noteq> TBoolean
                              then (h, Throws (''--'' @ path @ '' requires a value''))
                              else assignValueAtPath_store realm path (RBool True) result h)
                         | Some raw \<Rightarrow>
                             (case opt_arraySeparator opts of
                                Some sep \<Rightarrow>
                                  if includesChar raw (separator_char sep)
                                  then assignValueAtPath_store realm path (Ref (length h)) result
                                         (h @ [HArray (map RStr (splitOn (separator_char sep) raw))
                                                 (Ref (array_prototype realm))])
                                  else assignValueAtPath_store realm path (RStr raw) result h
                              | None \<Rightarrow> assignValueAtPath_store realm path (RStr raw) result h)))))"

definition dispatch_store ::
  "realm \<Rightarrow> resolved_options \<Rightarrow> string \<Rightarrow> string list \<Rightarrow> ref_value \<Rightarrow> heap \<Rightarrow> run" where
  "dispatch_store realm opts token rest result h =
     (let rawArgument = drop 2 token
      in if includesChar rawArgument (CHR ''='') then
           (let parts = splitOn (CHR ''='') rawArgument
            in parseFlag_store realm opts (at_index parts 0) (at_index parts 1) result h)
         else
           (let nextToken = at_index rest 0;
                flagValue = (case nextToken of
                               None \<Rightarrow> None
                             | Some t \<Rightarrow> if t \<noteq> [] \<and> \<not> startsWith t ''--'' then Some t else None)
            in parseFlag_store realm opts (Some rawArgument) flagValue result h))"

fun argument_loop_store ::
  "realm \<Rightarrow> resolved_options \<Rightarrow> string list \<Rightarrow> ref_value \<Rightarrow> heap \<Rightarrow> run" where
  "argument_loop_store realm opts [] result h = (h, Returns ())"
| "argument_loop_store realm opts (token # rest) result h =
     (if \<not> startsWith token ''--'' then argument_loop_store realm opts rest result h
      else
        (case dispatch_store realm opts token rest result h of
           (h', Returns u) \<Rightarrow> argument_loop_store realm opts rest result h'
         | (h', stop) \<Rightarrow> (h', stop)))"

text \<open>
  \<open>arglet\<close> on the store \<open>h\<close>, with \<open>data\<close> a value in it: the store the call leaves, and
  the returned reference \<open>result\<close> or the way the call stopped.
\<close>

definition arglet_store ::
  "realm \<Rightarrow> process \<Rightarrow> heap \<Rightarrow> ref_value \<Rightarrow> second_argument \<Rightarrow> ArgletOptions option
     \<Rightarrow> heap \<times> ref_value outcome" where
  "arglet_store realm proc h data argsOrOptions explicitOptions =
     (let (h0, result) = structuredClone_store realm h data;
          args = (case argsOrOptions of Tokens a \<Rightarrow> a | _ \<Rightarrow> drop 2 (argv proc));
          userOptions = (case argsOrOptions of
                           Tokens a \<Rightarrow> (case explicitOptions of Some opts \<Rightarrow> opts | None \<Rightarrow> no_options)
                         | Options opts \<Rightarrow> opts
                         | Absent \<Rightarrow> no_options);
          opts = resolve_options proc userOptions
      in case argument_loop_store realm opts args result h0 of
           (h', Returns u) \<Rightarrow> (h', Returns result)
         | (h', Throws e) \<Rightarrow> (h', Throws e)
         | (h', Unmodelled) \<Rightarrow> (h', Unmodelled))"

subsection \<open>Snapshots and regions of the store\<close>

text \<open>
  A deep snapshot of the own data of a value, down to \<open>depth\<close> levels of objects: what a
  deep-equality check compares. The built-in prototype objects are not data: a
  reference to one reads as a function does. Below that depth, and at an address that
  is not allocated, the snapshot reads \<open>Undefined\<close>.
\<close>

fun snapshot :: "realm \<Rightarrow> nat \<Rightarrow> heap \<Rightarrow> ref_value \<Rightarrow> jsval" where
  "snapshot realm depth h RUndefined = Undefined"
| "snapshot realm depth h RNull = Null"
| "snapshot realm depth h (RBool b) = Bool b"
| "snapshot realm depth h (RNum n) = Num n"
| "snapshot realm depth h (RStr s) = Str s"
| "snapshot realm depth h (RFun f) = Undefined"
| "snapshot realm 0 h (Ref a) = Undefined"
| "snapshot realm (Suc depth) h (Ref a) =
     (if a = object_prototype realm \<or> a = array_prototype realm then Undefined
      else
        (case object_at h a of
           Some (HObject kvs proto) \<Rightarrow>
             Obj (map (\<lambda>(k, p). (k, case p of Data v \<Rightarrow> snapshot realm depth h v
                                           | ProtoAccessor \<Rightarrow> Undefined)) kvs)
         | Some (HArray xs proto) \<Rightarrow> Arr (map (snapshot realm depth h) xs)
         | None \<Rightarrow> Undefined))"

text \<open>The references an object holds: its prototype and the values of its properties.\<close>

fun property_values :: "(string \<times> property) list \<Rightarrow> ref_value list" where
  "property_values [] = []"
| "property_values ((k, Data v) # kvs) = v # property_values kvs"
| "property_values ((k, ProtoAccessor) # kvs) = property_values kvs"

fun references :: "heap_object \<Rightarrow> ref_value list" where
  "references (HObject kvs proto) = proto # property_values kvs"
| "references (HArray xs proto) = proto # xs"

fun allocated :: "heap \<Rightarrow> ref_value \<Rightarrow> bool" where
  "allocated h (Ref a) = (a < length h)"
| "allocated h v = True"

text \<open>Every reference in the store leads to an allocated object.\<close>

definition well_formed :: "heap \<Rightarrow> bool" where
  "well_formed h = list_all (\<lambda>obj. list_all (allocated h) (references obj)) h"

text \<open>
  A value that is not a reference, or refers into a region of addresses; and a store in
  which the objects of a region refer into the region only.
\<close>

fun within :: "(address \<Rightarrow> bool) \<Rightarrow> ref_value \<Rightarrow> bool" where
  "within G (Ref a) = G a"
| "within G v = True"

definition closed :: "(address \<Rightarrow> bool) \<Rightarrow> heap \<Rightarrow> bool" where
  "closed G h = (\<forall>a<length h. G a \<longrightarrow> list_all (within G) (references (h ! a)))"

text \<open>
  The realm is pristine in a store when its two prototype objects are allocated and
  hold, besides primitives and functions, references to each other only: no program
  has stored an object on them.
\<close>

definition is_prototype :: "realm \<Rightarrow> address \<Rightarrow> bool" where
  "is_prototype realm a = (a = object_prototype realm \<or> a = array_prototype realm)"

definition pristine :: "realm \<Rightarrow> heap \<Rightarrow> bool" where
  "pristine realm h =
     (object_prototype realm < length h \<and> array_prototype realm < length h
      \<and> list_all (within (is_prototype realm)) (references (h ! object_prototype realm))
      \<and> list_all (within (is_prototype realm)) (references (h ! array_prototype realm)))"

text \<open>A store keeps what another holds outside a region, and is at least as long.\<close>

definition unchanged_outside :: "(address \<Rightarrow> bool) \<Rightarrow> heap \<Rightarrow> heap \<Rightarrow> bool" where
  "unchanged_outside G h h' = (length h \<le> length h' \<and> (\<forall>a<length h. \<not> G a \<longrightarrow> h' ! a = h ! a))"

subsection \<open>Plain data in the store\<close>

text \<open>
  The prototype chain of the realm as it is in every JavaScript realm:
  \<open>Object.prototype\<close> has no prototype, and the prototype of \<open>Array.prototype\<close> is
  \<open>Object.prototype\<close>.
\<close>

definition standard :: "realm \<Rightarrow> heap \<Rightarrow> bool" where
  "standard realm h =
     (object_prototype realm < length h \<and> array_prototype realm < length h
      \<and> prototype_of (h ! object_prototype realm) = RNull
      \<and> prototype_of (h ! array_prototype realm) = Ref (object_prototype realm))"

text \<open>
  A key that names a property of \<open>Object.prototype\<close> or of \<open>Array.prototype\<close>
  (\<open>__proto__\<close>, \<open>toString\<close>, \<open>constructor\<close>, \<open>length\<close>, \<open>push\<close>, ...): an object or an array
  that does not own the key inherits it.
\<close>

definition inherited :: "realm \<Rightarrow> heap \<Rightarrow> string \<Rightarrow> bool" where
  "inherited realm h key =
     (own_property (h ! object_prototype realm) key \<noteq> None
      \<or> own_property (h ! array_prototype realm) key \<noteq> None)"

text \<open>
  A value of the store that is a tree of plain data, with its content as a value of the
  first reading and the set of addresses it occupies: a primitive, or an object or an
  array that has the prototype of the realm for its kind, is not a built-in prototype
  itself, has data properties only, and whose children are trees on sets of addresses
  apart from each other and from the address of the parent. In such a tree no object is
  reached along two paths.
\<close>

inductive plain_tree :: "realm \<Rightarrow> heap \<Rightarrow> ref_value \<Rightarrow> jsval \<Rightarrow> address set \<Rightarrow> bool"
  and plain_props :: "realm \<Rightarrow> heap \<Rightarrow> (string \<times> property) list \<Rightarrow> (string \<times> jsval) list \<Rightarrow> address set \<Rightarrow> bool"
  and plain_elems :: "realm \<Rightarrow> heap \<Rightarrow> ref_value list \<Rightarrow> jsval list \<Rightarrow> address set \<Rightarrow> bool"
  for realm :: realm and h :: heap
where
  tree_undefined: "plain_tree realm h RUndefined Undefined {}"
| tree_null: "plain_tree realm h RNull Null {}"
| tree_bool: "plain_tree realm h (RBool b) (Bool b) {}"
| tree_num: "plain_tree realm h (RNum n) (Num n) {}"
| tree_str: "plain_tree realm h (RStr s) (Str s) {}"
| tree_object:
    "object_at h a = Some (HObject props (Ref (object_prototype realm)))
     \<Longrightarrow> plain_props realm h props kvs F \<Longrightarrow> a \<notin> F \<Longrightarrow> \<not> is_prototype realm a
     \<Longrightarrow> plain_tree realm h (Ref a) (Obj kvs) (insert a F)"
| tree_array:
    "object_at h a = Some (HArray vs (Ref (array_prototype realm)))
     \<Longrightarrow> plain_elems realm h vs xs F \<Longrightarrow> a \<notin> F \<Longrightarrow> \<not> is_prototype realm a
     \<Longrightarrow> plain_tree realm h (Ref a) (Arr xs) (insert a F)"
| props_nil: "plain_props realm h [] [] {}"
| props_cons:
    "plain_tree realm h v x F \<Longrightarrow> plain_props realm h props kvs G \<Longrightarrow> F \<inter> G = {}
     \<Longrightarrow> plain_props realm h ((k, Data v) # props) ((k, x) # kvs) (F \<union> G)"
| elems_nil: "plain_elems realm h [] [] {}"
| elems_cons:
    "plain_tree realm h v x F \<Longrightarrow> plain_elems realm h vs xs G \<Longrightarrow> F \<inter> G = {}
     \<Longrightarrow> plain_elems realm h (v # vs) (x # xs) (F \<union> G)"

section \<open>What the claims speak of\<close>

text \<open>A process started without arguments and without \<open>DEBUG\<close> in its environment.\<close>

definition plain_process :: process where
  "plain_process = \<lparr> argv = [], env_DEBUG = None \<rparr>"

text \<open>
  A small store: \<open>Object.prototype\<close> and \<open>Array.prototype\<close> with one method each standing
  for all of them, and the schema \<open>{a: 1, ids: ["p"]}\<close> at address 2.
\<close>

definition small_realm :: realm where
  "small_realm = \<lparr> object_prototype = 0, array_prototype = 1 \<rparr>"

definition small_store :: heap where
  "small_store =
     [HObject [(''toString'', Data (RFun ''toString'')), (''__proto__'', ProtoAccessor)] RNull,
      HObject [(''length'', Data (RNum 0)), (''push'', Data (RFun ''push''))] (Ref 0),
      HObject [(''a'', Data (RNum 1)), (''ids'', Data (Ref 3))] (Ref 0),
      HArray [RStr ''p''] (Ref 1)]"

text \<open>The options a call without an options argument works with.\<close>

definition default_options :: resolved_options where
  "default_options = resolve_options plain_process no_options"

text \<open>
  The flag name of a token: the text after the marker \<open>--\<close>, up to the first \<open>=\<close> if
  there is one. It is the first argument the loop passes to \<open>parseFlag\<close>
  (lemma \<open>dispatch_flag_name\<close>).
\<close>

definition flag_name :: "string \<Rightarrow> string" where
  "flag_name token = takeWhile (\<lambda>c. c \<noteq> CHR ''='') (drop 2 token)"

text \<open>
  The path addresses the \<open>length\<close> of an array: its last segment is \<open>length\<close> and the
  segments before it resolve to an array. A write there is \<open>Unmodelled\<close>.
\<close>

definition array_length_path :: "jsval \<Rightarrow> string \<Rightarrow> bool" where
  "array_length_path result path =
     (case foldl resolve_step result (butlast (segments path)) of
        Arr xs \<Rightarrow> last (segments path) = ''length''
      | _ \<Rightarrow> False)"

text \<open>
  An upper bound of how many times one call of \<open>parseFlag\<close> executes line 143: the call
  reaches \<open>assignValueAtPath\<close> only past the tests of lines 154 and 165, with the
  normalized path and the working copy as it is then.
\<close>

definition fresh_nodes_of_flag :: "string option \<Rightarrow> jsval \<Rightarrow> nat" where
  "fresh_nodes_of_flag flagName result =
     (case flagName of
        None \<Rightarrow> 0
      | Some name \<Rightarrow>
          if name = [] then 0
          else if \<not> hasConfigPath result (normalizedPath name) then 0
          else fresh_nodes (segments (normalizedPath name)) result)"

text \<open>The same count over a run of the argument loop.\<close>

fun fresh_nodes_of_run :: "resolved_options \<Rightarrow> string list \<Rightarrow> jsval \<Rightarrow> nat" where
  "fresh_nodes_of_run opts [] result = 0"
| "fresh_nodes_of_run opts (token # rest) result =
     (if \<not> startsWith token ''--'' then fresh_nodes_of_run opts rest result
      else
        fresh_nodes_of_flag
          (if includesChar (drop 2 token) (CHR ''='')
           then at_index (splitOn (CHR ''='') (drop 2 token)) 0
           else Some (drop 2 token)) result
        + (case dispatch opts token rest result of
             Returns result' \<Rightarrow> fresh_nodes_of_run opts rest result'
           | Throws e \<Rightarrow> 0
           | Unmodelled \<Rightarrow> 0))"

section \<open>Notions of the proofs\<close>

text \<open>
  The decimal numeral of an index: the one key under which an array holds its element
  \<open>i\<close> (lemma \<open>array_index_Some_iff\<close>).
\<close>

definition digit_char :: "nat \<Rightarrow> char" where
  "digit_char d = char_of (48 + d)"

fun decimal :: "nat \<Rightarrow> string" where
  "decimal n = (if n < 10 then [digit_char n] else decimal (n div 10) @ [digit_char (n mod 10)])"

declare decimal.simps [simp del]

text \<open>What a list of segments leads to, from a node: the fold of \<open>resolveValueAtPath\<close>.\<close>

definition look :: "jsval \<Rightarrow> string list \<Rightarrow> jsval" where
  "look node p = foldl resolve_step node p"

text \<open>A node without its children: a leaf, the keys of an object, the length of an array.\<close>

datatype node_shape = Leaf jsval | Keys "string list" | Length nat

fun shape :: "jsval \<Rightarrow> node_shape" where
  "shape (Obj kvs) = Keys (map fst kvs)"
| "shape (Arr xs) = Length (length xs)"
| "shape v = Leaf v"

text \<open>No object has a key twice, as in every JavaScript object.\<close>

fun distinct_keys :: "jsval \<Rightarrow> bool" where
  "distinct_keys (Obj kvs) = (distinct (map fst kvs) \<and> list_all (\<lambda>kv. distinct_keys (snd kv)) kvs)"
| "distinct_keys (Arr xs) = list_all distinct_keys xs"
| "distinct_keys v = True"

text \<open>
  The second argument the loop passes to \<open>parseFlag\<close> for a token followed by \<open>rest\<close>
  (lemma \<open>dispatch_parseFlag\<close>), the segments of the path of a flag, and \<open>parsedValue\<close>,
  the value that \<open>parseFlag\<close> assigns when it assigns: none of them depends on the working
  copy.
\<close>

definition flag_value :: "string \<Rightarrow> string list \<Rightarrow> string option" where
  "flag_value token rest =
     (if includesChar (drop 2 token) (CHR ''='')
      then Some (takeWhile (\<lambda>c. c \<noteq> CHR ''='')
                   (tl (dropWhile (\<lambda>c. c \<noteq> CHR ''='') (drop 2 token))))
      else (case rest of
              [] \<Rightarrow> None
            | t # ts \<Rightarrow> if t \<noteq> [] \<and> \<not> startsWith t ''--'' then Some t else None))"

definition flag_path :: "string \<Rightarrow> string list" where
  "flag_path name = segments (normalizedPath name)"

definition parsedValue :: "resolved_options \<Rightarrow> string \<Rightarrow> string option \<Rightarrow> jsval" where
  "parsedValue opts name rawValue =
     (if startsWith name ''no-'' then Bool False
      else (case rawValue of
              None \<Rightarrow> Bool True
            | Some raw \<Rightarrow>
                (case opt_arraySeparator opts of
                   Some sep \<Rightarrow> if includesChar raw (separator_char sep)
                               then Arr (map Str (splitOn (separator_char sep) raw)) else Str raw
                 | None \<Rightarrow> Str raw)))"

text \<open>
  A flag is effective on a working copy when \<open>parseFlag\<close>, if it returns, has written
  at the path of the flag: the name is not empty, the path exists and has no empty
  segment.
\<close>

definition effective :: "string \<Rightarrow> jsval \<Rightarrow> bool" where
  "effective name s = (name \<noteq> [] \<and> [] \<notin> set (flag_path name) \<and> look s (flag_path name) \<noteq> Undefined)"

text \<open>The paths that a run of the argument loop writes at.\<close>

fun pending :: "resolved_options \<Rightarrow> string list \<Rightarrow> jsval \<Rightarrow> string list set" where
  "pending opts [] s = {}"
| "pending opts (token # rest) s =
     (if \<not> startsWith token ''--'' then pending opts rest s
      else (case dispatch opts token rest s of
              Returns s' \<Rightarrow>
                (if effective (flag_name token) s then {flag_path (flag_name token)} else {})
                \<union> pending opts rest s'
            | Throws e \<Rightarrow> {}
            | Unmodelled \<Rightarrow> {}))"

text \<open>
  Two working copies agree outside a set of paths when every path that has no prefix in
  the set leads to nodes of the same shape in both; a working copy is anchored at a set
  of paths when the minimal paths of the set exist in it.
\<close>

definition agree :: "string list set \<Rightarrow> jsval \<Rightarrow> jsval \<Rightarrow> bool" where
  "agree P s r = (\<forall>q. (\<forall>p\<in>P. \<not> prefix p q) \<longrightarrow> shape (look s q) = shape (look r q))"

definition anchored :: "string list set \<Rightarrow> jsval \<Rightarrow> bool" where
  "anchored P r = (\<forall>p\<in>P. (\<forall>p'\<in>P. \<not> strict_prefix p' p) \<longrightarrow> look r p \<noteq> Undefined)"

text \<open>
  What an assignment of \<open>v\<close> at the existing path \<open>p\<close> does to the paths: below \<open>p\<close> they
  lead into \<open>v\<close>, above \<open>p\<close> the nodes keep their shape, and apart from \<open>p\<close> nothing
  changes.
\<close>

definition written :: "string list \<Rightarrow> jsval \<Rightarrow> jsval \<Rightarrow> jsval \<Rightarrow> bool" where
  "written p v s s' \<longleftrightarrow>
     look s p \<noteq> Undefined \<and> v \<noteq> Undefined
     \<and> (\<forall>q. look s' (p @ q) = look v q)
     \<and> (\<forall>q. \<not> prefix p q \<longrightarrow>
            shape (look s' q) = shape (look s q) \<and> (\<not> prefix q p \<longrightarrow> look s' q = look s q))"

subsection \<open>Runs on trees of plain data\<close>

text \<open>
  The tokens a call works on (\<open>args\<close> in \<open>arglet\<close>), and the condition that no flag among
  them has a path segment that names an inherited property.
\<close>

definition arguments :: "process \<Rightarrow> second_argument \<Rightarrow> string list" where
  "arguments proc argsOrOptions = (case argsOrOptions of Tokens a \<Rightarrow> a | _ \<Rightarrow> drop 2 (argv proc))"

definition own_paths_only :: "realm \<Rightarrow> heap \<Rightarrow> string list \<Rightarrow> bool" where
  "own_paths_only realm h args =
     list_all (\<lambda>token. startsWith token ''--'' \<longrightarrow>
                 list_all (\<lambda>key. \<not> inherited realm h key) (flag_path (flag_name token))) args"

text \<open>
  Two more stores with the same prototypes: the schema \<open>{a: false}\<close> at address 2, and
  a schema \<open>{a: d, b: d}\<close> at address 2 that holds one object \<open>d = {x: ["p", "q"]}\<close>
  under two keys.
\<close>

definition switch_store :: heap where
  "switch_store =
     [HObject [(''toString'', Data (RFun ''toString'')), (''__proto__'', ProtoAccessor)] RNull,
      HObject [(''length'', Data (RNum 0)), (''push'', Data (RFun ''push''))] (Ref 0),
      HObject [(''a'', Data (RBool False))] (Ref 0)]"

definition shared_store :: heap where
  "shared_store =
     [HObject [(''toString'', Data (RFun ''toString'')), (''__proto__'', ProtoAccessor)] RNull,
      HObject [(''length'', Data (RNum 0)), (''push'', Data (RFun ''push''))] (Ref 0),
      HObject [(''a'', Data (Ref 3)), (''b'', Data (Ref 3))] (Ref 0),
      HObject [(''x'', Data (Ref 4))] (Ref 0),
      HArray [RStr ''p'', RStr ''q''] (Ref 1)]"

text \<open>
  How a run on the store corresponds to an outcome of the first reading: it ends the
  same way, and when it returns, the working copy is a tree with the returned content
  and the two prototypes are as they were.
\<close>

definition refines :: "realm \<Rightarrow> heap \<Rightarrow> ref_value \<Rightarrow> jsval outcome \<Rightarrow> run \<Rightarrow> bool" where
  "refines realm h result out r =
     (case out of
        Returns x' \<Rightarrow>
          snd r = Returns () \<and> (\<exists>F'. plain_tree realm (fst r) result x' F')
          \<and> length h \<le> length (fst r)
          \<and> fst r ! object_prototype realm = h ! object_prototype realm
          \<and> fst r ! array_prototype realm = h ! array_prototype realm
      | Throws e \<Rightarrow> snd r = Throws e
      | Unmodelled \<Rightarrow> snd r = Unmodelled)"

section \<open>Properties\<close>

subsection \<open>Resolving and assigning along a path\<close>

lemma foldl_resolve_Undefined [simp]: "foldl resolve_step Undefined segs = Undefined"
  by (induction segs) (simp_all add: resolve_step_def)

lemma resolve_step_defined:
  assumes "resolve_step node key \<noteq> Undefined"
  shows "typeof node = TObject \<and> node \<noteq> Null \<and> has_property key node
         \<and> resolve_step node key = get_property node key"
  using assms by (auto simp: resolve_step_def split: if_splits)

lemma foldl_resolve_Cons_defined:
  assumes "foldl resolve_step node (key # rest) \<noteq> Undefined"
  shows "resolve_step node key \<noteq> Undefined"
  using assms by (cases "resolve_step node key = Undefined") simp_all

lemma object_cases:
  assumes "typeof node = TObject" "node \<noteq> Null"
  obtains (Arr) xs where "node = Arr xs" | (Obj) kvs where "node = Obj kvs"
  using assms by (cases node) simp_all

lemma array_index_less: "array_index xs k = Some i \<Longrightarrow> i < length xs"
  by (auto simp: array_index_def split: if_splits)

lemma array_index_update [simp]: "array_index (xs[i := v]) k = array_index xs k"
  by (simp add: array_index_def)

lemma array_index_length [simp]: "array_index xs ''length'' = None"
  by (simp add: array_index_def is_digit_def)

lemma fresh_nodes_zero:
  "foldl resolve_step node segs \<noteq> Undefined \<Longrightarrow> fresh_nodes segs node = 0"
proof (induction segs arbitrary: node)
  case Nil
  then show ?case by simp
next
  case (Cons seg rest)
  from Cons.prems have step: "resolve_step node seg \<noteq> Undefined"
    by (rule foldl_resolve_Cons_defined)
  show ?case
  proof (cases "seg = [] \<or> rest = []")
    case True
    then show ?thesis by auto
  next
    case False
    then obtain key others where rest: "rest = key # others" by (cases rest) auto
    let ?child = "get_property node seg"
    from step have child: "resolve_step node seg = ?child"
      using resolve_step_defined by blast
    with Cons.prems have defined: "foldl resolve_step ?child rest \<noteq> Undefined" by simp
    then have "resolve_step ?child key \<noteq> Undefined"
      unfolding rest by (rule foldl_resolve_Cons_defined)
    then have "typeof ?child = TObject" "?child \<noteq> Null"
      using resolve_step_defined by blast+
    with False Cons.IH [OF defined] show ?thesis by (simp add: Let_def)
  qed
qed


lemma set_property_same:
  assumes "typeof (get_property node key) = TObject"
  shows "set_property node key (get_property node key) = Returns node"
proof (cases node)
  case (Arr xs)
  with assms show ?thesis
    by (auto simp: list_update_same_conv dest: array_index_less split: option.splits if_splits)
next
  case (Obj kvs)
  with assms show ?thesis by (auto simp: update_triv split: option.splits)
qed (use assms in simp_all)

lemma get_set_property:
  assumes "set_property node key v = Returns node'"
  shows "typeof node' = TObject \<and> node' \<noteq> Null \<and> has_property key node'
         \<and> get_property node' key = v"
proof (cases node)
  case (Arr xs)
  with assms show ?thesis
    by (auto simp: array_index_less split: option.splits)
next
  case (Obj kvs)
  with assms show ?thesis by (auto simp: update_conv')
qed (use assms in simp_all)

lemma resolve_step_set_property:
  assumes "set_property node key v = Returns node'"
  shows "resolve_step node' key = v"
proof -
  from get_set_property [OF assms]
  have "typeof node' = TObject" "node' \<noteq> Null" "has_property key node'" "get_property node' key = v"
    by simp_all
  moreover from this(1,2) have "truthy node'" by (cases node') simp_all
  ultimately show ?thesis by (simp add: resolve_step_def)
qed

lemma set_property_defined:
  assumes "has_property key node" "typeof (get_property node key) \<noteq> TNumber"
  shows "\<exists>node'. set_property node key v = Returns node'"
proof (cases node)
  case (Arr xs)
  with assms show ?thesis by (auto split: option.splits if_splits)
qed (use assms in simp_all)

lemma child_is_object:
  assumes "foldl resolve_step node (seg # rest) \<noteq> Undefined" "rest \<noteq> []"
  shows "resolve_step node seg = get_property node seg"
    and "typeof (get_property node seg) = TObject"
    and "get_property node seg \<noteq> Null"
    and "foldl resolve_step (get_property node seg) rest \<noteq> Undefined"
proof -
  from assms(2) obtain key others where rest: "rest = key # others" by (cases rest) auto
  from assms(1) have "resolve_step node seg \<noteq> Undefined" by (rule foldl_resolve_Cons_defined)
  then show child: "resolve_step node seg = get_property node seg"
    using resolve_step_defined by blast
  with assms show defined: "foldl resolve_step (get_property node seg) rest \<noteq> Undefined"
    by simp
  then have "resolve_step (get_property node seg) key \<noteq> Undefined"
    unfolding rest by (rule foldl_resolve_Cons_defined)
  then show "typeof (get_property node seg) = TObject" "get_property node seg \<noteq> Null"
    using resolve_step_defined by blast+
qed

lemma assign_loop_empty_segment:
  assumes "foldl resolve_step node segs \<noteq> Undefined" "[] \<in> set segs"
  shows "assign_loop segs v node = Returns node"
  using assms
proof (induction segs arbitrary: node)
  case Nil
  then show ?case by simp
next
  case (Cons seg rest)
  show ?case
  proof (cases "seg = []")
    case True
    then show ?thesis by simp
  next
    case False
    with Cons.prems(2) have mem: "[] \<in> set rest" by auto
    then have rest: "rest \<noteq> []" by auto
    note child = child_is_object [OF Cons.prems(1) rest]
    from Cons.IH [OF child(4) mem]
    have "assign_loop rest v (get_property node seg) = Returns (get_property node seg)" .
    with False rest child(2,3) show ?thesis
      by (simp add: Let_def set_property_same)
  qed
qed

lemma assign_loop_read_back:
  assumes "foldl resolve_step node segs \<noteq> Undefined" "segs \<noteq> []" "[] \<notin> set segs"
  shows "assign_loop segs v node = Unmodelled
         \<or> (\<exists>node'. assign_loop segs v node = Returns node' \<and> foldl resolve_step node' segs = v)"
  using assms
proof (induction segs arbitrary: node)
  case Nil
  then show ?case by simp
next
  case (Cons seg rest)
  from Cons.prems have seg: "seg \<noteq> []" by auto
  show ?case
  proof (cases rest)
    case Nil
    show ?thesis
    proof (cases "set_property node seg v")
      case (Returns node')
      with Nil seg show ?thesis by (simp add: resolve_step_set_property)
    next
      case (Throws e)
      then show ?thesis by (cases node) (simp_all split: option.splits)
    next
      case Unmodelled
      with Nil seg show ?thesis by simp
    qed
  next
    case (Cons key others)
    then have rest: "rest \<noteq> []" by simp
    note child = child_is_object [OF Cons.prems(1) rest]
    let ?child = "get_property node seg"
    from Cons.prems have "[] \<notin> set rest" by auto
    from Cons.IH [OF child(4) rest this]
    consider "assign_loop rest v ?child = Unmodelled"
      | c where "assign_loop rest v ?child = Returns c" "foldl resolve_step c rest = v"
      by auto
    then show ?thesis
    proof cases
      case 1
      with seg rest child(2,3) show ?thesis by (simp add: Let_def)
    next
      case 2
      show ?thesis
      proof (cases "set_property node seg c")
        case (Returns node')
        with 2 seg rest child(2,3) show ?thesis
          by (simp add: Let_def resolve_step_set_property)
      next
        case (Throws e)
        then show ?thesis by (cases node) (simp_all split: option.splits)
      next
        case Unmodelled
        with 2 seg rest child(2,3) show ?thesis by (simp add: Let_def)
      qed
    qed
  qed
qed


subsection \<open>The tokenizer\<close>

lemma splitOn_not_Nil [simp]: "splitOn c s \<noteq> []"
  by (induction s) (auto split: list.splits)

lemma splitOn_first:
  "splitOn c s =
     takeWhile (\<lambda>x. x \<noteq> c) s
       # (if c \<in> set s then splitOn c (tl (dropWhile (\<lambda>x. x \<noteq> c) s)) else [])"
  by (induction s) (auto split: list.splits)

lemma splitOn_no_separator: "c \<notin> set s \<Longrightarrow> splitOn c s = [s]"
  by (subst splitOn_first) auto

lemma at_index_splitOn_0: "at_index (splitOn c s) 0 = Some (takeWhile (\<lambda>x. x \<noteq> c) s)"
  by (subst splitOn_first) (simp add: at_index_def)

lemma at_index_splitOn_1:
  assumes "c \<in> set s"
  shows "at_index (splitOn c s) 1
         = Some (takeWhile (\<lambda>x. x \<noteq> c) (tl (dropWhile (\<lambda>x. x \<noteq> c) s)))"
proof -
  let ?rest = "tl (dropWhile (\<lambda>x. x \<noteq> c) s)"
  have "splitOn c s = takeWhile (\<lambda>x. x \<noteq> c) s # splitOn c ?rest"
    using assms by (subst splitOn_first) simp
  also have "splitOn c ?rest = takeWhile (\<lambda>x. x \<noteq> c) ?rest
                # (if c \<in> set ?rest then splitOn c (tl (dropWhile (\<lambda>x. x \<noteq> c) ?rest)) else [])"
    by (rule splitOn_first)
  finally show ?thesis by (simp add: at_index_def)
qed

lemma dispatch_explicit_value:
  assumes "includesChar (drop 2 token) (CHR ''='')"
  shows "dispatch opts token rest result
         = parseFlag opts (Some (flag_name token))
             (Some (takeWhile (\<lambda>c. c \<noteq> CHR ''='')
                      (tl (dropWhile (\<lambda>c. c \<noteq> CHR ''='') (drop 2 token))))) result"
  using assms
  by (simp add: dispatch_def Let_def flag_name_def at_index_splitOn_0 at_index_splitOn_1
      includesChar_def del: One_nat_def)

lemma dispatch_flag_name:
  "\<exists>rawValue. dispatch opts token rest result = parseFlag opts (Some (flag_name token)) rawValue result"
proof (cases "includesChar (drop 2 token) (CHR ''='')")
  case True
  then show ?thesis using dispatch_explicit_value by blast
next
  case False
  then have "flag_name token = drop 2 token"
    by (auto simp: flag_name_def includesChar_def)
  with False show ?thesis by (auto simp: dispatch_def Let_def)
qed

lemma dispatch_bare:
  assumes "\<not> includesChar (drop 2 token) (CHR ''='')"
      and "rest = [] \<or> hd rest = [] \<or> startsWith (hd rest) ''--''"
  shows "dispatch opts token rest result = parseFlag opts (Some (drop 2 token)) None result"
  using assms by (cases rest) (auto simp: dispatch_def Let_def at_index_def)

lemma parseFlag_unknown:
  assumes "\<not> hasConfigPath result (normalizedPath name)"
  shows "parseFlag opts (Some name) rawValue result = Returns result"
  using assms by (simp add: parseFlag_def Let_def)

subsection \<open>Paths\<close>

lemma segments_not_Nil [simp]: "segments path \<noteq> []"
  by (simp add: segments_def)

lemma segments_empty_path: "segments [] = [[]]"
  by (simp add: segments_def)

lemma no_empty_segment_nonempty: "[] \<notin> set (segments path) \<Longrightarrow> path \<noteq> []"
  by (auto simp: segments_empty_path)

lemma splitOn_append:
  "splitOn c (xs @ c # ys) = splitOn c xs @ splitOn c ys"
proof (induction xs)
  case Nil
  then show ?case by simp
next
  case (Cons x xs)
  obtain w ws where "splitOn c xs = w # ws"
    using splitOn_not_Nil [of c xs] by (cases "splitOn c xs") auto
  with Cons show ?case by simp
qed

lemma segments_child:
  "CHR ''.'' \<notin> set key \<Longrightarrow> segments (parent @ CHR ''.'' # key) = segments parent @ [key]"
  by (simp add: segments_def splitOn_append splitOn_no_separator)

lemma takeWhile_until: "c \<notin> set xs \<Longrightarrow> takeWhile (\<lambda>x. x \<noteq> c) (xs @ c # ys) = xs"
  by (induction xs) auto

lemma dropWhile_until: "c \<notin> set xs \<Longrightarrow> dropWhile (\<lambda>x. x \<noteq> c) (xs @ c # ys) = c # ys"
  by (induction xs) auto

lemma segments_key: "CHR ''.'' \<notin> set key \<Longrightarrow> segments key = [key]"
  by (simp add: segments_def splitOn_no_separator)

lemma normalizedPath_negation [simp]: "normalizedPath (''no-'' @ X) = X"
  by (simp add: normalizedPath_def startsWith_def)

lemma normalizedPath_negation_Cons [simp]:
  "normalizedPath (CHR ''n'' # CHR ''o'' # CHR ''-'' # X) = X"
  using normalizedPath_negation [of X] by simp

lemma normalizedPath_plain: "\<not> startsWith X ''no-'' \<Longrightarrow> normalizedPath X = X"
  by (simp add: normalizedPath_def)

lemma resolve_last:
  assumes "segs \<noteq> []"
  shows "foldl resolve_step node segs = resolve_step (foldl resolve_step node (butlast segs)) (last segs)"
proof -
  from assms have "segs = butlast segs @ [last segs]" by simp
  then have "foldl resolve_step node segs = foldl resolve_step node (butlast segs @ [last segs])"
    by simp
  then show ?thesis by (simp del: append_butlast_last_id)
qed

lemma array_length_path_number:
  assumes "array_length_path result path"
  shows "typeof (resolveValueAtPath result path) = TNumber"
proof -
  from assms obtain xs where
    "foldl resolve_step result (butlast (segments path)) = Arr xs" "last (segments path) = ''length''"
    by (auto simp: array_length_path_def split: jsval.splits)
  then show ?thesis
    by (simp add: resolveValueAtPath_def resolve_last [of "segments path"] resolve_step_def)
qed

lemma assign_loop_never_throws: "assign_loop segs v node \<noteq> Throws e"
proof (induction segs arbitrary: node)
  case Nil
  then show ?case by simp
next
  case (Cons seg rest)
  have set: "set_property n k u \<noteq> Throws e" for n k u
    by (cases n) (simp_all split: option.splits)
  show ?case
    using Cons.IH set by (auto simp: Let_def split: outcome.splits)
qed

lemma assign_loop_modelled:
  assumes "foldl resolve_step node segs \<noteq> Undefined" "segs \<noteq> []" "[] \<notin> set segs"
      and "\<not> (case foldl resolve_step node (butlast segs) of
                 Arr xs \<Rightarrow> last segs = ''length'' | _ \<Rightarrow> False)"
  shows "assign_loop segs v node \<noteq> Unmodelled"
  using assms
proof (induction segs arbitrary: node)
  case Nil
  then show ?case by simp
next
  case (Cons seg rest)
  from Cons.prems have seg: "seg \<noteq> []" by auto
  from Cons.prems(1) have "resolve_step node seg \<noteq> Undefined"
    by (rule foldl_resolve_Cons_defined)
  then have node: "typeof node = TObject" "node \<noteq> Null" "has_property seg node"
    using resolve_step_defined by blast+
  show ?case
  proof (cases "rest = []")
    case True
    from node(1,2) show ?thesis
    proof (cases rule: object_cases)
      case (Arr xs)
      with Cons.prems(4) True node(3) seg show ?thesis by (auto split: option.splits)
    next
      case (Obj kvs)
      with True seg show ?thesis by simp
    qed
  next
    case False
    note child = child_is_object [OF Cons.prems(1) False]
    let ?child = "get_property node seg"
    from Cons.prems(3) have no_empty: "[] \<notin> set rest" by auto
    from Cons.prems(4) False child(1)
    have "\<not> (case foldl resolve_step ?child (butlast rest) of
                 Arr xs \<Rightarrow> last rest = ''length'' | _ \<Rightarrow> False)"
      by (simp split: jsval.splits)
    from Cons.IH [OF child(4) False no_empty this]
    obtain c where c: "assign_loop rest v ?child = Returns c"
      using assign_loop_never_throws by (cases "assign_loop rest v ?child") auto
    have "set_property node seg c \<noteq> Unmodelled"
      using node(1,2)
    proof (cases rule: object_cases)
      case (Arr xs)
      with node(3) child(2) show ?thesis by (auto split: option.splits if_splits)
    next
      case (Obj kvs)
      then show ?thesis by simp
    qed
    with c seg False child(2,3) show ?thesis by (simp add: Let_def)
  qed
qed

lemma assignValueAtPath_assigns:
  assumes "hasConfigPath result path" "[] \<notin> set (segments path)" "\<not> array_length_path result path"
  shows "\<exists>result'. assignValueAtPath path v result = Returns result'
                    \<and> resolveValueAtPath result' path = v"
proof -
  from assms(1) have defined: "foldl resolve_step result (segments path) \<noteq> Undefined"
    by (simp add: hasConfigPath_def resolveValueAtPath_def)
  from assms(3) have "assign_loop (segments path) v result \<noteq> Unmodelled"
    by (intro assign_loop_modelled [OF defined _ assms(2)]) (simp_all add: array_length_path_def)
  with assign_loop_read_back [OF defined _ assms(2), of v]
  show ?thesis by (auto simp: assignValueAtPath_def resolveValueAtPath_def)
qed

lemma assignValueAtPath_empty_segment:
  assumes "hasConfigPath result path" "[] \<in> set (segments path)"
  shows "assignValueAtPath path v result = Returns result"
  using assms
  by (simp add: assignValueAtPath_def hasConfigPath_def resolveValueAtPath_def
      assign_loop_empty_segment)

subsection \<open>What \<open>parseFlag\<close> does with an existing path\<close>

lemma parseFlag_negation:
  assumes "hasConfigPath result X"
  shows "parseFlag opts (Some (''no-'' @ X)) rawValue result
         = (if typeof (resolveValueAtPath result X) \<noteq> TBoolean
            then Throws (''--no-'' @ X @ '' is only valid for boolean options'')
            else assignValueAtPath X (Bool False) result)"
  using assms by (simp add: parseFlag_def Let_def startsWith_def)

lemma parseFlag_bare:
  assumes "hasConfigPath result X" "X \<noteq> []" "\<not> startsWith X ''no-''"
  shows "parseFlag opts (Some X) None result
         = (if typeof (resolveValueAtPath result X) \<noteq> TBoolean
            then Throws (''--'' @ X @ '' requires a value'')
            else assignValueAtPath X (Bool True) result)"
  using assms by (simp add: parseFlag_def Let_def normalizedPath_plain)

text \<open>The value that lines 187 to 194 compute from a raw value.\<close>

lemma parseFlag_value:
  assumes "hasConfigPath result X" "X \<noteq> []" "\<not> startsWith X ''no-''"
  shows "parseFlag opts (Some X) (Some raw) result
         = assignValueAtPath X
             (case opt_arraySeparator opts of
                Some sep \<Rightarrow> if includesChar raw (separator_char sep)
                            then Arr (map Str (splitOn (separator_char sep) raw)) else Str raw
              | None \<Rightarrow> Str raw) result"
  using assms by (simp add: parseFlag_def Let_def normalizedPath_plain split: option.splits)

lemma boolean_not_array_length:
  "typeof (resolveValueAtPath result X) = TBoolean \<Longrightarrow> \<not> array_length_path result X"
  using array_length_path_number by fastforce

lemma dispatch_no_equals:
  assumes "CHR ''='' \<notin> set name"
  shows "\<exists>rawValue. dispatch opts (''--'' @ name) rest result = parseFlag opts (Some name) rawValue result"
proof -
  from assms have "flag_name (''--'' @ name) = name"
    by (auto simp: flag_name_def)
  then show ?thesis using dispatch_flag_name [of opts "''--'' @ name" rest result] by simp
qed

lemma stored_undefined_resolves_undefined:
  assumes "get_property node key = Undefined" and "CHR ''.'' \<notin> set key"
      and "(node = result \<and> path = key)
           \<or> (node = resolveValueAtPath result parent \<and> path = parent @ ''.'' @ key)"
  shows "\<not> hasConfigPath result path"
proof -
  have "resolve_step node key = Undefined"
    using assms(1) by (simp add: resolve_step_def)
  with assms(2,3) show ?thesis
    by (auto simp: hasConfigPath_def resolveValueAtPath_def segments_child segments_key)
qed

subsection \<open>Flags that do not find their path\<close>

text \<open>
  On the store, too, the loop passes the flag name and the flag value of a token to
  \<open>parseFlag\<close>.
\<close>

lemma dispatch_store_explicit_value:
  assumes "includesChar (drop 2 token) (CHR ''='')"
  shows "dispatch_store realm opts token rest result h
         = parseFlag_store realm opts (Some (flag_name token))
             (Some (takeWhile (\<lambda>c. c \<noteq> CHR ''='')
                      (tl (dropWhile (\<lambda>c. c \<noteq> CHR ''='') (drop 2 token))))) result h"
  using assms
  by (simp add: dispatch_store_def Let_def flag_name_def at_index_splitOn_0 at_index_splitOn_1
      includesChar_def del: One_nat_def)

lemma dispatch_store_parseFlag:
  "dispatch_store realm opts token rest result h
   = parseFlag_store realm opts (Some (flag_name token)) (flag_value token rest) result h"
proof (cases "includesChar (drop 2 token) (CHR ''='')")
  case True
  then show ?thesis by (simp add: dispatch_store_explicit_value flag_value_def)
next
  case False
  then have "flag_name token = drop 2 token"
    by (auto simp: flag_name_def includesChar_def)
  with False show ?thesis
    by (cases rest) (simp_all add: dispatch_store_def flag_value_def at_index_def Let_def)
qed





subsection \<open>Boolean shortcuts\<close>

text \<open>
  Claim C2, as amended. A bare token \<open>--X\<close> (no \<open>=\<close>, and no following token that can
  serve as its value), with \<open>X\<close> not empty, not starting with \<open>no-\<close> and existing in the
  working copy: if the value at \<open>X\<close> is not a boolean, the call throws
  \<open>--X requires a value\<close>; if it is a boolean and no segment of \<open>X\<close> is empty, the
  iteration assigns \<open>true\<close> at \<open>X\<close>; if it is a boolean and a segment of \<open>X\<close> is empty,
  \<open>assignValueAtPath\<close> returns at that segment and the working copy stays as it was.
\<close>

theorem bare_flag:
  assumes "CHR ''='' \<notin> set X"
      and "rest = [] \<or> hd rest = [] \<or> startsWith (hd rest) ''--''"
      and "X \<noteq> []" and "\<not> startsWith X ''no-''"
      and "hasConfigPath result X"
  shows "(typeof (resolveValueAtPath result X) \<noteq> TBoolean \<longrightarrow>
            dispatch opts (''--'' @ X) rest result = Throws (''--'' @ X @ '' requires a value''))
       \<and> (typeof (resolveValueAtPath result X) = TBoolean \<and> [] \<notin> set (segments X) \<longrightarrow>
            (\<exists>result'. dispatch opts (''--'' @ X) rest result = Returns result'
                       \<and> resolveValueAtPath result' X = Bool True))
       \<and> (typeof (resolveValueAtPath result X) = TBoolean \<and> [] \<in> set (segments X) \<longrightarrow>
            dispatch opts (''--'' @ X) rest result = Returns result)"
proof -
  have "dispatch opts (''--'' @ X) rest result = parseFlag opts (Some X) None result"
    using dispatch_bare [of "''--'' @ X" rest opts result] assms(1,2)
    by (simp add: includesChar_def)
  then have eq: "dispatch opts (''--'' @ X) rest result
         = (if typeof (resolveValueAtPath result X) \<noteq> TBoolean
            then Throws (''--'' @ X @ '' requires a value'')
            else assignValueAtPath X (Bool True) result)"
    using parseFlag_bare [OF assms(5,3,4)] by simp
  show ?thesis
    using eq assignValueAtPath_assigns [OF assms(5), of "Bool True"]
      assignValueAtPath_empty_segment [OF assms(5), of "Bool True"]
      boolean_not_array_length [of result X]
    by auto
qed

theorem bare_flag_witness:
  "(\<exists>result'. dispatch default_options ''--verbose'' [] (Obj [(''verbose'', Bool False)]) = Returns result'
       \<and> resolveValueAtPath result' ''verbose'' = Bool True)
   \<and> dispatch default_options ''--age'' [''--x''] (Obj [(''age'', Num 23)])
       = Throws ''--age requires a value''
   \<and> dispatch default_options ''--a.'' [] (Obj [(''a'', Obj [([], Bool False)])])
       = Returns (Obj [(''a'', Obj [([], Bool False)])])"
proof -
  have 1: "CHR ''='' \<notin> set ''verbose''" "''verbose'' \<noteq> []" "\<not> startsWith ''verbose'' ''no-''"
    "hasConfigPath (Obj [(''verbose'', Bool False)]) ''verbose''"
    "typeof (resolveValueAtPath (Obj [(''verbose'', Bool False)]) ''verbose'') = TBoolean
     \<and> [] \<notin> set (segments ''verbose'')"
    by code_simp+
  have 2: "CHR ''='' \<notin> set ''age''" "[''--x''] = [] \<or> hd [''--x''] = [] \<or> startsWith (hd [''--x'']) ''--''"
    "''age'' \<noteq> []" "\<not> startsWith ''age'' ''no-''"
    "hasConfigPath (Obj [(''age'', Num 23)]) ''age''"
    "typeof (resolveValueAtPath (Obj [(''age'', Num 23)]) ''age'') \<noteq> TBoolean"
    by code_simp+
  have 3: "CHR ''='' \<notin> set ''a.''" "''a.'' \<noteq> []" "\<not> startsWith ''a.'' ''no-''"
    "hasConfigPath (Obj [(''a'', Obj [([], Bool False)])]) ''a.''"
    "typeof (resolveValueAtPath (Obj [(''a'', Obj [([], Bool False)])]) ''a.'') = TBoolean
     \<and> [] \<in> set (segments ''a.'')"
    by code_simp+
  from bare_flag [OF 1(1) _ 1(2,3,4), of "[]" default_options] 1(5)
    bare_flag [OF 2(1,2,3,4,5), of default_options] 2(6)
    bare_flag [OF 3(1) _ 3(2,3,4), of "[]" default_options] 3(5)
  show ?thesis by simp
qed

text \<open>
  The claim as stated fails where a segment is empty: in \<open>{opt: {"": false}}\<close> the path
  \<open>opt.\<close> exists and holds a boolean, and \<open>--opt.\<close> leaves it \<open>false\<close>. It also fails for
  the empty name: in \<open>{"": "s"}\<close> the path \<open>""\<close> exists and holds a string, and the token
  \<open>--\<close> returns at line 154 without throwing.
\<close>

theorem bare_flag_counterexample:
  "hasConfigPath (Obj [(''opt'', Obj [([], Bool False)])]) ''opt.''
   \<and> resolveValueAtPath (Obj [(''opt'', Obj [([], Bool False)])]) ''opt.'' = Bool False
   \<and> arglet plain_process (Obj [(''opt'', Obj [([], Bool False)])]) (Tokens [''--opt.'']) None
       = Returns (Obj [(''opt'', Obj [([], Bool False)])])
   \<and> resolveValueAtPath (Obj [([], Str ''s'')]) [] = Str ''s''
   \<and> arglet plain_process (Obj [([], Str ''s'')]) (Tokens [''--'']) None
       = Returns (Obj [([], Str ''s'')])"
  by code_simp

text \<open>
  Claim C3, as amended. A negation token \<open>--no-X\<close> whose target path \<open>X\<close> exists in the
  working copy: if the value at \<open>X\<close> is not a boolean, the call throws
  \<open>--no-X is only valid for boolean options\<close>; if it is a boolean and no segment of \<open>X\<close>
  is empty, the iteration assigns \<open>false\<close> at \<open>X\<close>; if it is a boolean and a segment of
  \<open>X\<close> is empty, the working copy stays as it was.
\<close>

theorem negation_flag:
  assumes "CHR ''='' \<notin> set X" and "hasConfigPath result X"
  shows "(typeof (resolveValueAtPath result X) \<noteq> TBoolean \<longrightarrow>
            dispatch opts (''--no-'' @ X) rest result
            = Throws (''--no-'' @ X @ '' is only valid for boolean options''))
       \<and> (typeof (resolveValueAtPath result X) = TBoolean \<and> [] \<notin> set (segments X) \<longrightarrow>
            (\<exists>result'. dispatch opts (''--no-'' @ X) rest result = Returns result'
                       \<and> resolveValueAtPath result' X = Bool False))
       \<and> (typeof (resolveValueAtPath result X) = TBoolean \<and> [] \<in> set (segments X) \<longrightarrow>
            dispatch opts (''--no-'' @ X) rest result = Returns result)"
proof -
  from assms(1) have "CHR ''='' \<notin> set (''no-'' @ X)" by simp
  from dispatch_no_equals [OF this, of opts rest result]
  obtain rawValue where
    "dispatch opts (''--no-'' @ X) rest result = parseFlag opts (Some (''no-'' @ X)) rawValue result"
    by auto
  then have eq: "dispatch opts (''--no-'' @ X) rest result
         = (if typeof (resolveValueAtPath result X) \<noteq> TBoolean
            then Throws (''--no-'' @ X @ '' is only valid for boolean options'')
            else assignValueAtPath X (Bool False) result)"
    using parseFlag_negation [OF assms(2)] by simp
  show ?thesis
    using eq assignValueAtPath_assigns [OF assms(2), of "Bool False"]
      assignValueAtPath_empty_segment [OF assms(2), of "Bool False"]
      boolean_not_array_length [of result X]
    by auto
qed

theorem negation_flag_witness:
  "(\<exists>result'. dispatch default_options ''--no-cache'' [] (Obj [(''cache'', Bool True)]) = Returns result'
       \<and> resolveValueAtPath result' ''cache'' = Bool False)
   \<and> dispatch default_options ''--no-name'' [] (Obj [(''name'', Str ''x'')])
       = Throws ''--no-name is only valid for boolean options''
   \<and> dispatch default_options ''--no-b.'' [] (Obj [(''b'', Obj [([], Bool True)])])
       = Returns (Obj [(''b'', Obj [([], Bool True)])])"
proof -
  have 1: "CHR ''='' \<notin> set ''cache''"
    "hasConfigPath (Obj [(''cache'', Bool True)]) ''cache''"
    "typeof (resolveValueAtPath (Obj [(''cache'', Bool True)]) ''cache'') = TBoolean
     \<and> [] \<notin> set (segments ''cache'')"
    by code_simp+
  have 2: "CHR ''='' \<notin> set ''name''"
    "hasConfigPath (Obj [(''name'', Str ''x'')]) ''name''"
    "typeof (resolveValueAtPath (Obj [(''name'', Str ''x'')]) ''name'') \<noteq> TBoolean"
    by code_simp+
  have 3: "CHR ''='' \<notin> set ''b.''"
    "hasConfigPath (Obj [(''b'', Obj [([], Bool True)])]) ''b.''"
    "typeof (resolveValueAtPath (Obj [(''b'', Obj [([], Bool True)])]) ''b.'') = TBoolean
     \<and> [] \<in> set (segments ''b.'')"
    by code_simp+
  from negation_flag [OF 1(1,2), of default_options "[]"] 1(3)
    negation_flag [OF 2(1,2), of default_options "[]"] 2(3)
    negation_flag [OF 3(1,2), of default_options "[]"] 3(3)
  show ?thesis by simp
qed

text \<open>
  The claim as stated fails where a segment is empty: in \<open>{log: {"": true}}\<close> the path
  \<open>log.\<close> exists and holds a boolean, and \<open>--no-log.\<close> leaves it \<open>true\<close>.
\<close>

theorem negation_flag_counterexample:
  "hasConfigPath (Obj [(''log'', Obj [([], Bool True)])]) ''log.''
   \<and> resolveValueAtPath (Obj [(''log'', Obj [([], Bool True)])]) ''log.'' = Bool True
   \<and> arglet plain_process (Obj [(''log'', Obj [([], Bool True)])]) (Tokens [''--no-log.'']) None
       = Returns (Obj [(''log'', Obj [([], Bool True)])])"
  by code_simp

subsection \<open>Flags with a value\<close>

text \<open>
  Claim C5, as amended. A flag \<open>X\<close> that is not a negation, with a raw value, whose path
  exists in the working copy, has no empty segment and is not the \<open>length\<close> of an array:
  \<open>parseFlag\<close> returns, and the path then holds the list of the pieces of the raw value
  split at the configured separator when the raw value contains it (whatever the value
  before was), and the raw string itself otherwise.
\<close>

theorem raw_value_assigned:
  assumes "hasConfigPath result X" and "\<not> startsWith X ''no-''"
      and "[] \<notin> set (segments X)" and "\<not> array_length_path result X"
  shows "\<exists>result'. parseFlag opts (Some X) (Some raw) result = Returns result'
           \<and> resolveValueAtPath result' X
               = (case opt_arraySeparator opts of
                    Some sep \<Rightarrow> if includesChar raw (separator_char sep)
                                then Arr (map Str (splitOn (separator_char sep) raw)) else Str raw
                  | None \<Rightarrow> Str raw)"
  using parseFlag_value [OF assms(1) no_empty_segment_nonempty [OF assms(3)] assms(2)]
    assignValueAtPath_assigns [OF assms(1,3,4)]
  by simp

theorem raw_value_assigned_witness:
  "(\<exists>result'. parseFlag default_options (Some ''ids'') (Some ''1,2,3'') (Obj [(''ids'', Arr [])])
                 = Returns result'
       \<and> resolveValueAtPath result' ''ids'' = Arr [Str ''1'', Str ''2'', Str ''3''])
   \<and> (\<exists>result'. parseFlag default_options (Some ''age'') (Some ''25'') (Obj [(''age'', Num 23)])
                 = Returns result'
       \<and> resolveValueAtPath result' ''age'' = Str ''25'')"
proof -
  have 1: "hasConfigPath (Obj [(''ids'', Arr [])]) ''ids''" "\<not> startsWith ''ids'' ''no-''"
    "[] \<notin> set (segments ''ids'')" "\<not> array_length_path (Obj [(''ids'', Arr [])]) ''ids''"
    by code_simp+
  have 2: "hasConfigPath (Obj [(''age'', Num 23)]) ''age''" "\<not> startsWith ''age'' ''no-''"
    "[] \<notin> set (segments ''age'')" "\<not> array_length_path (Obj [(''age'', Num 23)]) ''age''"
    by code_simp+
  have sep: "opt_arraySeparator default_options = Some Comma"
    by (simp add: default_options_def resolve_options_def no_options_def)
  have split: "includesChar ''1,2,3'' (CHR '','')" "splitOn (CHR '','') ''1,2,3'' = [''1'', ''2'', ''3'']"
    "\<not> includesChar ''25'' (CHR '','')"
    by code_simp+
  from raw_value_assigned [OF 1, of default_options "''1,2,3''"]
    raw_value_assigned [OF 2, of default_options "''25''"]
  show ?thesis by (simp add: sep split)
qed

text \<open>
  The claim as stated fails where a segment is empty: in \<open>{tag: {"": "s"}}\<close> the path
  \<open>tag.\<close> exists, and \<open>--tag.=v\<close> leaves it \<open>"s"\<close>. It also fails for a negation flag, whose
  raw value is not looked at: \<open>--no-cache=x\<close> on \<open>{cache: true}\<close> assigns \<open>false\<close>.
\<close>

theorem raw_value_assigned_counterexample:
  "hasConfigPath (Obj [(''tag'', Obj [([], Str ''s'')])]) ''tag.''
   \<and> resolveValueAtPath (Obj [(''tag'', Obj [([], Str ''s'')])]) ''tag.'' = Str ''s''
   \<and> arglet plain_process (Obj [(''tag'', Obj [([], Str ''s'')])]) (Tokens [''--tag.=v'']) None
       = Returns (Obj [(''tag'', Obj [([], Str ''s'')])])
   \<and> arglet plain_process (Obj [(''cache'', Bool True)]) (Tokens [''--no-cache=x'']) None
       = Returns (Obj [(''cache'', Bool False)])"
  by code_simp

text \<open>
  Claim C6 fails on the code. \<open>rawArgument.split("=")\<close> splits at every \<open>=\<close> and the
  destructuring keeps the first two pieces: \<open>--k=a=b\<close> passes the value \<open>a\<close>, not \<open>a=b\<close>.
  The form \<open>--k a=b\<close> passes the whole \<open>a=b\<close>.
\<close>

theorem first_equals_split_cuts_value:
  "arglet plain_process (Obj [(''k'', Str [])]) (Tokens [''--k=a=b'']) None
     = Returns (Obj [(''k'', Str ''a'')])
   \<and> arglet plain_process (Obj [(''k'', Str [])]) (Tokens [''--k'', ''a=b'']) None
     = Returns (Obj [(''k'', Str ''a=b'')])"
  by code_simp

text \<open>
  Claim C7, as amended. A token \<open>--X=\<close> passes the empty string as the raw value, which
  is not \<open>undefined\<close>: for a path \<open>X\<close> that exists in the working copy (not starting with
  \<open>no-\<close>, without \<open>=\<close>, without an empty segment, not the \<open>length\<close> of an array) the
  iteration does not throw; it assigns the empty string at \<open>X\<close>, whatever was there.
\<close>

theorem trailing_equals_assigns_empty_string:
  assumes "CHR ''='' \<notin> set X" and "\<not> startsWith X ''no-''"
      and "hasConfigPath result X"
      and "[] \<notin> set (segments X)" and "\<not> array_length_path result X"
  shows "\<exists>result'. dispatch opts (''--'' @ X @ ''='') rest result = Returns result'
           \<and> resolveValueAtPath result' X = Str []"
proof -
  have name: "flag_name (''--'' @ X @ ''='') = X"
    using assms(1) by (simp add: flag_name_def takeWhile_until)
  have "tl (dropWhile (\<lambda>c. c \<noteq> CHR ''='') (X @ ''='')) = []"
    using assms(1) by (simp add: dropWhile_until)
  then have "dispatch opts (''--'' @ X @ ''='') rest result = parseFlag opts (Some X) (Some []) result"
    using dispatch_explicit_value [of "''--'' @ X @ ''=''" opts rest result] name
    by (simp add: includesChar_def)
  also have "\<dots> = assignValueAtPath X (Str []) result"
    using parseFlag_value [OF assms(3) no_empty_segment_nonempty [OF assms(4)] assms(2), of opts "[]"]
    by (simp add: includesChar_def split: option.splits)
  finally show ?thesis
    using assignValueAtPath_assigns [OF assms(3,4,5), of "Str []"] by simp
qed

theorem trailing_equals_assigns_empty_string_witness:
  "\<exists>result'. dispatch default_options ''--port='' [] (Obj [(''port'', Str ''3000'')]) = Returns result'
       \<and> resolveValueAtPath result' ''port'' = Str []"
proof -
  have 1: "CHR ''='' \<notin> set ''port''" "\<not> startsWith ''port'' ''no-''"
    "hasConfigPath (Obj [(''port'', Str ''3000'')]) ''port''"
    "[] \<notin> set (segments ''port'')" "\<not> array_length_path (Obj [(''port'', Str ''3000'')]) ''port''"
    by code_simp+
  from trailing_equals_assigns_empty_string [OF 1, of default_options "[]"]
  show ?thesis by simp
qed

text \<open>
  The claim as stated fails: with \<open>{name: "z"}\<close>, \<open>--name=\<close> returns \<open>{name: ""}\<close> where the
  bare \<open>--name\<close> throws.
\<close>

theorem trailing_equals_counterexample:
  "typeof (resolveValueAtPath (Obj [(''name'', Str ''z'')]) ''name'') \<noteq> TBoolean
   \<and> arglet plain_process (Obj [(''name'', Str ''z'')]) (Tokens [''--name='']) None
       = Returns (Obj [(''name'', Str [])])
   \<and> arglet plain_process (Obj [(''name'', Str ''z'')]) (Tokens [''--name'']) None
       = Throws ''--name requires a value''"
  by code_simp

subsection \<open>The replacement branch of the assigner\<close>

text \<open>
  Claim C9. Over a whole run of the argument loop, line 143 (the replacement of a node
  that is not an object by a fresh \<open>{}\<close>) is never executed: \<open>assignValueAtPath\<close> is called
  only for a path that \<open>hasConfigPath\<close> accepts, and along such a path every segment
  before the last holds a non-null object.
\<close>

theorem replace_branch_never_runs:
  "fresh_nodes_of_run opts args result = 0
   \<and> (hasConfigPath result path \<longrightarrow> fresh_nodes (segments path) result = 0)"
proof
  have flag: "fresh_nodes_of_flag flagName r = 0" for flagName r
    by (auto simp: fresh_nodes_of_flag_def hasConfigPath_def resolveValueAtPath_def
        fresh_nodes_zero split: option.splits)
  show "fresh_nodes_of_run opts args result = 0"
    by (induction args arbitrary: result) (auto simp: flag split: outcome.splits)
  show "hasConfigPath result path \<longrightarrow> fresh_nodes (segments path) result = 0"
    by (simp add: hasConfigPath_def resolveValueAtPath_def fresh_nodes_zero)
qed

theorem replace_branch_never_runs_witness:
  "fresh_nodes_of_run default_options [''--server.port=8080'', ''--a.b=1'']
       (Obj [(''server'', Obj [(''port'', Str ''3000'')]), (''a'', Str ''x'')]) = 0
   \<and> fresh_nodes (segments ''server.port'')
       (Obj [(''server'', Obj [(''port'', Str ''3000'')]), (''a'', Str ''x'')]) = 0
   \<and> fresh_nodes (segments ''a.b'')
       (Obj [(''server'', Obj [(''port'', Str ''3000'')]), (''a'', Str ''x'')]) = 1"
proof -
  let ?S = "Obj [(''server'', Obj [(''port'', Str ''3000'')]), (''a'', Str ''x'')]"
  have 1: "hasConfigPath ?S ''server.port''" by code_simp
  have 2: "fresh_nodes (segments ''a.b'') ?S = 1" by code_simp
  from replace_branch_never_runs
    [of default_options "[''--server.port=8080'', ''--a.b=1'']" ?S "''server.port''"] 1 2
  show ?thesis by simp
qed

subsection \<open>Where the writes of a call go\<close>

lemma object_at_Some: "object_at h a = Some obj \<longleftrightarrow> a < length h \<and> h ! a = obj"
  by (auto simp: object_at_def)

lemma unchanged_outside_refl [simp]: "unchanged_outside G h h"
  by (simp add: unchanged_outside_def)

lemma unchanged_outside_trans:
  "unchanged_outside G h h' \<Longrightarrow> unchanged_outside G h' h'' \<Longrightarrow> unchanged_outside G h h''"
  by (auto simp: unchanged_outside_def)

lemma unchanged_outside_update: "G a \<Longrightarrow> unchanged_outside G h (h[a := obj])"
proof -
  assume "G a"
  then have "h[a := obj] ! b = h ! b" if "\<not> G b" for b
    using that by (cases "b = a") simp_all
  then show ?thesis by (simp add: unchanged_outside_def)
qed

lemma unchanged_outside_append [simp]: "unchanged_outside G h (h @ hs)"
  by (simp add: unchanged_outside_def nth_append)

lemma closed_references:
  assumes "closed G h" "G a" "object_at h a = Some obj"
  shows "list_all (within G) (references obj)"
  using assms by (auto simp: closed_def object_at_Some)

lemma closed_update:
  assumes "closed G h" "list_all (within G) (references obj)"
  shows "closed G (h[a := obj])"
  unfolding closed_def
proof (intro allI impI)
  fix b assume "b < length (h[a := obj])" "G b"
  with assms show "list_all (within G) (references (h[a := obj] ! b))"
    by (cases "b = a") (auto simp: closed_def)
qed

lemma closed_append:
  assumes "closed G h" "list_all (within G) (references obj)"
  shows "closed G (h @ [obj])"
  using assms by (auto simp: closed_def nth_append less_Suc_eq)

lemma within_property_values:
  assumes "list_all (within G) (property_values kvs)" "map_of kvs key = Some (Data v)"
  shows "within G v"
  using assms by (induction kvs rule: property_values.induct) (auto split: if_splits)

lemma within_own_property:
  assumes "list_all (within G) (references obj)" "own_property obj key = Some (Data v)"
  shows "within G v"
proof (cases obj)
  case (HObject kvs proto)
  with assms show ?thesis by (auto intro: within_property_values)
next
  case (HArray xs proto)
  with assms(1) have "list_all (within G) xs" by simp
  then have "within G (xs ! i)" if "i < length xs" for i
    using that by (simp add: list_all_length)
  with HArray assms(2) show ?thesis
    by (auto dest: array_index_less split: if_splits option.splits)
qed

lemma within_prototype_of:
  assumes "list_all (within G) (references obj)"
  shows "within G (prototype_of obj)"
  using assms by (cases obj) simp_all

lemma find_property_within:
  assumes "closed G h" "within G v" "find_property n h v key = Some (Data x)"
  shows "within G x"
  using assms(2,3)
proof (induction n arbitrary: v)
  case 0
  then show ?case by simp
next
  case (Suc n)
  from Suc.prems(2) obtain a where v: "v = Ref a" by (cases v) simp_all
  with Suc.prems(2) obtain obj where obj: "object_at h a = Some obj"
    by (cases "object_at h a") simp_all
  from v Suc.prems(1) have "G a" by simp
  from closed_references [OF assms(1) this obj] have refs: "list_all (within G) (references obj)" .
  show ?case
  proof (cases "own_property obj key")
    case None
    with v obj Suc.prems(2) have "find_property n h (prototype_of obj) key = Some (Data x)" by simp
    with Suc.IH within_prototype_of [OF refs] show ?thesis by blast
  next
    case (Some p)
    with v obj Suc.prems(2) have "own_property obj key = Some (Data x)" by simp
    with refs show ?thesis by (rule within_own_property)
  qed
qed

lemma get_property_within:
  assumes "closed G h" "within G current"
  shows "within G (get_property_ref h current key)"
proof (cases "find_property (length h) h current key")
  case None
  then show ?thesis by (simp add: get_property_ref_def)
next
  case (Some p)
  show ?thesis
  proof (cases p)
    case (Data v)
    with Some find_property_within [OF assms] show ?thesis by (simp add: get_property_ref_def)
  next
    case ProtoAccessor
    show ?thesis
    proof (cases current)
      case (Ref a)
      show ?thesis
      proof (cases "object_at h a")
        case None
        with Some ProtoAccessor Ref show ?thesis by (simp add: get_property_ref_def)
      next
        case obj: (Some obj)
        from Ref assms(2) have "G a" by simp
        from within_prototype_of [OF closed_references [OF assms(1) this obj]]
        show ?thesis using Some ProtoAccessor Ref obj by (simp add: get_property_ref_def)
      qed
    qed (use Some ProtoAccessor in \<open>simp_all add: get_property_ref_def\<close>)
  qed
qed

lemma within_update:
  assumes "list_all (within G) (property_values kvs)" "within G v"
  shows "list_all (within G) (property_values (AList.update key (Data v) kvs))"
  using assms by (induction kvs rule: property_values.induct) auto

lemma write_own_frame:
  assumes "write_own h a obj key v = (h', c)" "object_at h a = Some obj"
      and "G a" "within G v" "closed G h"
  shows "closed G h' \<and> unchanged_outside G h h' \<and> length h' = length h"
proof -
  from closed_references [OF assms(5,3,2)] have refs: "list_all (within G) (references obj)" .
  show ?thesis
  proof (cases obj)
    case (HObject kvs proto)
    with refs assms(4) have "list_all (within G) (references (HObject (AList.update key (Data v) kvs) proto))"
      by (simp add: within_update)
    from closed_update [OF assms(5) this] assms(1,3) HObject show ?thesis
      by (auto simp: unchanged_outside_update)
  next
    case (HArray xs proto)
    show ?thesis
    proof (cases "array_index xs key")
      case None
      with assms(1,5) HArray show ?thesis by auto
    next
      case (Some i)
      from refs HArray have "list_all (within G) xs" "within G proto" by simp_all
      with assms(4) have "list_all (within G) (references (HArray (xs[i := v]) proto))"
        by (auto simp: list_all_iff dest: set_update_subset_insert [THEN subsetD])
      from closed_update [OF assms(5) this] assms(1,3) HArray Some show ?thesis
        by (auto simp: unchanged_outside_update)
    qed
  qed
qed

lemma set_prototype_frame:
  assumes "set_prototype realm h a v = (h', c)" "G a" "within G v" "closed G h"
  shows "closed G h' \<and> unchanged_outside G h h' \<and> length h' = length h"
proof (cases "object_at h a")
  case None
  with assms show ?thesis by (simp add: set_prototype_def)
next
  case (Some obj)
  from closed_references [OF assms(4,2) Some] have refs: "list_all (within G) (references obj)" .
  with assms(3) have "list_all (within G) (references (with_prototype obj v))"
    by (cases obj) simp_all
  from closed_update [OF assms(4) this] have new: "closed G (h[a := with_prototype obj v])" .
  show ?thesis
  proof (cases "h' = h")
    case True
    with assms(4) show ?thesis by simp
  next
    case False
    with assms(1) Some have "h' = h[a := with_prototype obj v]"
      by (auto simp: set_prototype_def split: if_splits)
    with new assms(2) show ?thesis by (simp add: unchanged_outside_update)
  qed
qed

lemma set_property_at_frame:
  assumes "set_property_at realm h a key v = (h', c)" "G a" "within G v" "closed G h"
  shows "closed G h' \<and> unchanged_outside G h h' \<and> length h' = length h"
proof (cases "object_at h a")
  case None
  with assms show ?thesis by (simp add: set_property_at_def)
next
  case (Some obj)
  with assms(1) consider "write_own h a obj key v = (h', c)" | "set_prototype realm h a v = (h', c)"
    by (auto simp: set_property_at_def split: option.splits property.splits)
  then show ?thesis
  proof cases
    case 1
    from write_own_frame [OF this Some assms(2,3,4)] show ?thesis .
  next
    case 2
    from set_prototype_frame [OF this assms(2,3,4)] show ?thesis .
  qed
qed

lemma object_ref_cases:
  assumes "typeof_ref v = TObject" "v \<noteq> RNull"
  obtains a where "v = Ref a"
  using assms by (cases v) simp_all

text \<open>
  A run of \<open>assignValueAtPath\<close> that starts in a closed region to which the prototypes
  of the realm and all fresh addresses belong stays in the region.
\<close>

lemma assign_loop_store_frame:
  assumes "assign_loop_store realm segs v cur h = (h', c)"
      and "G cur" "within G v" "closed G h" "\<forall>a\<ge>length h. G a"
      and "G (object_prototype realm)"
  shows "closed G h' \<and> unchanged_outside G h h'"
  using assms(1-5)
proof (induction segs arbitrary: cur h)
  case Nil
  then show ?case by simp
next
  case (Cons seg rest)
  show ?case
  proof (cases "seg = []")
    case True
    with Cons.prems show ?thesis by simp
  next
    case seg: False
    show ?thesis
    proof (cases "rest = []")
      case True
      with seg Cons.prems(1) have "set_property_at realm h cur seg v = (h', c)" by simp
      from set_property_at_frame [OF this Cons.prems(2,3,4)] show ?thesis by simp
    next
      case rest: False
      let ?child = "get_property_ref h (Ref cur) seg"
      show ?thesis
      proof (cases "typeof_ref ?child \<noteq> TObject \<or> ?child = RNull")
        case True
        let ?h1 = "h @ [HObject [] (Ref (object_prototype realm))]"
        obtain h2 c2 where set: "set_property_at realm ?h1 cur seg (Ref (length h)) = (h2, c2)"
          by (cases "set_property_at realm ?h1 cur seg (Ref (length h))") auto
        have fresh: "within G (Ref (length h))" using Cons.prems(5) by simp
        have "closed G ?h1"
          using assms(6) by (intro closed_append [OF Cons.prems(4)]) simp
        from set_property_at_frame [OF set Cons.prems(2) fresh this]
        have h2: "closed G h2" "unchanged_outside G ?h1 h2" "length h2 = Suc (length h)"
          by simp_all
        from h2(2) have outside: "unchanged_outside G h h2"
          by (rule unchanged_outside_trans [rotated]) simp
        show ?thesis
        proof (cases c2)
          case (Returns u)
          show ?thesis
          proof (cases "get_property_ref h2 (Ref cur) seg")
            case (Ref a)
            with seg rest True set Returns Cons.prems(1)
            have run: "assign_loop_store realm rest v a h2 = (h', c)" by (simp add: Let_def)
            from get_property_within [OF h2(1), of "Ref cur" seg] Cons.prems(2) Ref
            have "G a" by simp
            moreover from Cons.prems(5) h2(3) have "\<forall>a\<ge>length h2. G a" by simp
            ultimately have "closed G h' \<and> unchanged_outside G h2 h'"
              using Cons.IH [OF run _ Cons.prems(3) h2(1)] by blast
            with outside show ?thesis by (auto intro: unchanged_outside_trans)
          qed (use seg rest True set Returns Cons.prems(1) h2(1) outside in
                \<open>simp_all add: Let_def\<close>)
        next
          case (Throws e)
          with seg rest True set Cons.prems(1) have "h' = h2" by (simp add: Let_def)
          with h2(1) outside show ?thesis by simp
        next
          case Unmodelled
          with seg rest True set Cons.prems(1) have "h' = h2" by (simp add: Let_def)
          with h2(1) outside show ?thesis by simp
        qed
      next
        case False
        then obtain a where a: "?child = Ref a" using object_ref_cases by blast
        from get_property_within [OF Cons.prems(4), of "Ref cur" seg] Cons.prems(2) a
        have "G a" by simp
        from seg rest False a Cons.prems(1)
        have "assign_loop_store realm rest v a h = (h', c)" by (simp add: Let_def)
        from Cons.IH [OF this \<open>G a\<close> Cons.prems(3,4,5)] show ?thesis .
      qed
    qed
  qed
qed

lemma unchanged_outside_length: "unchanged_outside G h h' \<Longrightarrow> length h \<le> length h'"
  by (simp add: unchanged_outside_def)

lemma assignValueAtPath_store_frame:
  assumes "assignValueAtPath_store realm path v result h = (h', c)"
      and "within G result" "within G v" "closed G h" "\<forall>a\<ge>length h. G a"
      and "G (object_prototype realm)"
  shows "closed G h' \<and> unchanged_outside G h h'"
proof (cases result)
  case (Ref a)
  with assms(1) have "assign_loop_store realm (segments path) v a h = (h', c)"
    by (simp add: assignValueAtPath_store_def)
  from assign_loop_store_frame [OF this _ assms(3,4,5,6)] assms(2) Ref show ?thesis by simp
qed (use assms in \<open>simp_all add: assignValueAtPath_store_def\<close>)

lemma parseFlag_store_frame:
  assumes "parseFlag_store realm opts flagName rawValue result h = (h', c)"
      and "within G result" "closed G h" "\<forall>a\<ge>length h. G a"
      and "G (object_prototype realm)" "G (array_prototype realm)"
  shows "closed G h' \<and> unchanged_outside G h h'"
proof -
  have plain: "closed G h' \<and> unchanged_outside G h h'"
    if "assignValueAtPath_store realm path v result h = (h', c)" "within G v" for path v
    using assignValueAtPath_store_frame [OF that(1) assms(2) that(2) assms(3,4,5)] .
  have array: "closed G h' \<and> unchanged_outside G h h'"
    if "assignValueAtPath_store realm path (Ref (length h)) result
          (h @ [HArray (map RStr parts) (Ref (array_prototype realm))]) = (h', c)"
    for path parts
  proof -
    let ?h1 = "h @ [HArray (map RStr parts) (Ref (array_prototype realm))]"
    have "closed G ?h1"
      using assms(6) by (intro closed_append [OF assms(3)]) (simp add: list_all_iff)
    moreover have "within G (Ref (length h))" using assms(4) by simp
    moreover have "\<forall>a\<ge>length ?h1. G a" using assms(4) by simp
    ultimately have "closed G h' \<and> unchanged_outside G ?h1 h'"
      using assignValueAtPath_store_frame [OF that assms(2) _ _ _ assms(5)] by blast
    moreover have "unchanged_outside G h ?h1" by simp
    ultimately show ?thesis using unchanged_outside_trans by blast
  qed
  show ?thesis
  proof (cases "h' = h")
    case True
    with assms(3) show ?thesis by simp
  next
    case False
    with assms(1) show ?thesis
      by (auto simp: parseFlag_store_def Let_def split: option.splits if_splits
          dest: plain array)
  qed
qed

lemma dispatch_store_frame:
  assumes "dispatch_store realm opts token rest result h = (h', c)"
      and "within G result" "closed G h" "\<forall>a\<ge>length h. G a"
      and "G (object_prototype realm)" "G (array_prototype realm)"
  shows "closed G h' \<and> unchanged_outside G h h'"
  using assms(1) parseFlag_store_frame [OF _ assms(2,3,4,5,6)]
  by (auto simp: dispatch_store_def Let_def split: if_splits)

lemma argument_loop_store_frame:
  assumes "argument_loop_store realm opts args result h = (h', c)"
      and "within G result" "closed G h" "\<forall>a\<ge>length h. G a"
      and "G (object_prototype realm)" "G (array_prototype realm)"
  shows "unchanged_outside G h h'"
  using assms(1,3,4)
proof (induction args arbitrary: h)
  case Nil
  then show ?case by simp
next
  case (Cons token rest)
  show ?case
  proof (cases "startsWith token ''--''")
    case False
    with Cons show ?thesis by simp
  next
    case True
    obtain h1 c1 where step: "dispatch_store realm opts token rest result h = (h1, c1)"
      by (cases "dispatch_store realm opts token rest result h") auto
    from dispatch_store_frame [OF step assms(2) Cons.prems(2,3) assms(5,6)]
    have frame: "closed G h1" "unchanged_outside G h h1" by simp_all
    show ?thesis
    proof (cases c1)
      case (Returns u)
      with True step Cons.prems(1)
      have run: "argument_loop_store realm opts rest result h1 = (h', c)" by simp
      from frame(2) Cons.prems(3) have "\<forall>a\<ge>length h1. G a"
        by (auto dest: unchanged_outside_length)
      from Cons.IH [OF run frame(1) this] frame(2) show ?thesis
        by (auto intro: unchanged_outside_trans)
    next
      case (Throws e)
      with True step Cons.prems(1) frame show ?thesis by simp
    next
      case Unmodelled
      with True step Cons.prems(1) frame show ?thesis by simp
    qed
  qed
qed

text \<open>The region of a call: the two prototypes and everything from the clone on.\<close>

lemma within_relocate: "within (\<lambda>a. n \<le> a \<or> P a) (relocate n v)"
  by (cases v) simp_all

lemma within_relocated_values:
  "list_all (within (\<lambda>a. n \<le> a \<or> P a)) (property_values (map (\<lambda>(k, p). (k, relocate_property n p)) kvs))"
  by (induction kvs rule: property_values.induct) (simp_all add: within_relocate)

lemma within_mono: "within P v \<Longrightarrow> (\<And>a. P a \<Longrightarrow> Q a) \<Longrightarrow> within Q v"
  by (cases v) simp_all

lemma closed_clone:
  assumes "pristine realm h"
  shows "closed (\<lambda>a. length h \<le> a \<or> is_prototype realm a)
           (h @ map (relocate_object realm (length h)) h)"
    (is "closed ?G ?h1")
  unfolding closed_def
proof (intro allI impI)
  fix a assume a: "a < length ?h1" "?G a"
  show "list_all (within ?G) (references (?h1 ! a))"
  proof (cases "a < length h")
    case True
    with a(2) have proto: "is_prototype realm a" by simp
    with assms have "list_all (within (is_prototype realm)) (references (h ! a))"
      by (auto simp: pristine_def is_prototype_def)
    then have "list_all (within ?G) (references (h ! a))"
      by (auto simp: list_all_iff intro: within_mono)
    with True show ?thesis by (simp add: nth_append)
  next
    case False
    with a(1) have "?h1 ! a = relocate_object realm (length h) (h ! (a - length h))"
      by (simp add: nth_append)
    moreover have "list_all (within ?G) (references (relocate_object realm (length h) obj))" for obj
    proof (cases obj)
      case (HObject kvs proto)
      then show ?thesis
        using within_relocated_values [of "length h" "is_prototype realm" kvs]
        by (simp add: is_prototype_def)
    next
      case (HArray xs proto)
      then show ?thesis
        using within_relocate [of "length h" "is_prototype realm"]
        by (simp add: is_prototype_def list_all_iff)
    qed
    ultimately show ?thesis by simp
  qed
qed

lemma arglet_store_frame:
  assumes "pristine realm h"
  shows "unchanged_outside (is_prototype realm) h
           (fst (arglet_store realm proc h data argsOrOptions explicitOptions))"
proof -
  let ?G = "\<lambda>a. length h \<le> a \<or> is_prototype realm a"
  let ?h1 = "h @ map (relocate_object realm (length h)) h"
  let ?result = "relocate (length h) data"
  have run: "unchanged_outside (is_prototype realm) h h'"
    if "argument_loop_store realm opts args ?result ?h1 = (h', c)" for opts args h' c
  proof -
    have "unchanged_outside ?G ?h1 h'"
      by (rule argument_loop_store_frame [OF that within_relocate closed_clone [OF assms]])
        (simp_all add: is_prototype_def)
    then show ?thesis by (auto simp: unchanged_outside_def nth_append)
  qed
  show ?thesis
    by (auto simp: arglet_store_def structuredClone_store_def Let_def
        split: prod.splits outcome.splits dest: run)
qed

lemma property_values_member: "(k, Data v) \<in> set kvs \<Longrightarrow> v \<in> set (property_values kvs)"
  by (induction kvs rule: property_values.induct) auto

lemma snapshot_unchanged:
  assumes "unchanged_outside (is_prototype realm) h h'" "well_formed h" "allocated h v"
  shows "snapshot realm depth h' v = snapshot realm depth h v"
  using assms(3)
proof (induction depth arbitrary: v)
  case 0
  then show ?case by (cases v) simp_all
next
  case (Suc depth)
  show ?case
  proof (cases v)
    case (Ref a)
    show ?thesis
    proof (cases "is_prototype realm a")
      case True
      with Ref show ?thesis by (simp add: is_prototype_def)
    next
      case False
      from Ref Suc.prems have a: "a < length h" by simp
      with assms(1) False have same: "h' ! a = h ! a" and len: "length h \<le> length h'"
        by (simp_all add: unchanged_outside_def)
      from assms(2) a have refs: "list_all (allocated h) (references (h ! a))"
        by (simp add: well_formed_def list_all_length)
      have at: "object_at h' a = Some (h ! a)" "object_at h a = Some (h ! a)"
        using a len same by (simp_all add: object_at_def)
      show ?thesis
      proof (cases "h ! a")
        case (HObject kvs proto)
        have "(case p of Data u \<Rightarrow> snapshot realm depth h' u | ProtoAccessor \<Rightarrow> Undefined)
              = (case p of Data u \<Rightarrow> snapshot realm depth h u | ProtoAccessor \<Rightarrow> Undefined)"
          if "(k, p) \<in> set kvs" for k p
        proof (cases p)
          case (Data u)
          with that have "u \<in> set (property_values kvs)" by (simp add: property_values_member)
          with refs HObject have "allocated h u" by (simp add: list_all_iff)
          with Data Suc.IH show ?thesis by simp
        qed simp
        then have "map (\<lambda>(k, p). (k, case p of Data u \<Rightarrow> snapshot realm depth h' u
                                            | ProtoAccessor \<Rightarrow> Undefined)) kvs
                 = map (\<lambda>(k, p). (k, case p of Data u \<Rightarrow> snapshot realm depth h u
                                            | ProtoAccessor \<Rightarrow> Undefined)) kvs"
          by (intro map_cong) auto
        with Ref False at HObject show ?thesis by (simp add: is_prototype_def)
      next
        case (HArray xs proto)
        with refs have "map (snapshot realm depth h') xs = map (snapshot realm depth h) xs"
          by (intro map_cong) (auto simp: list_all_iff intro: Suc.IH)
        with Ref False at HArray show ?thesis by (simp add: is_prototype_def)
      qed
    qed
  qed simp_all
qed

text \<open>
  The objects of the schema are not written. In a pristine realm, whatever the tokens
  and the options and however the call ends, every object that the store held before
  the call, other than the two built-in prototypes, is the same after it; so a deep
  snapshot of the own data of \<open>data\<close>, to any depth, is the same before and after.
\<close>

theorem schema_objects_unchanged:
  assumes "pristine realm h"
  shows "unchanged_outside (is_prototype realm) h
           (fst (arglet_store realm proc h data argsOrOptions explicitOptions))
       \<and> (well_formed h \<and> allocated h data \<longrightarrow>
            (\<forall>depth. snapshot realm depth
                        (fst (arglet_store realm proc h data argsOrOptions explicitOptions)) data
                      = snapshot realm depth h data))"
  using arglet_store_frame [OF assms, of proc data argsOrOptions explicitOptions]
  by (auto intro: snapshot_unchanged)

text \<open>
  Claim C1 fails on the code: not every write of a call goes to the working copy.
  \<open>key in current\<close> holds for the inherited accessor \<open>__proto__\<close>, so the path
  \<open>__proto__.toString\<close> exists in the clone of any schema, and \<open>assignValueAtPath\<close>
  walks from the clone to \<open>Object.prototype\<close> and writes there. The schema, which
  inherits from the same object, then yields \<open>"x"\<close> where it yielded the method
  \<open>toString\<close>.
\<close>

theorem prototype_written:
  "pristine small_realm small_store
   \<and> arglet_store small_realm plain_process small_store (Ref 2)
       (Tokens [''--__proto__.toString=x'']) None
     = ([HObject [(''toString'', Data (RStr ''x'')), (''__proto__'', ProtoAccessor)] RNull,
         HObject [(''length'', Data (RNum 0)), (''push'', Data (RFun ''push''))] (Ref 0),
         HObject [(''a'', Data (RNum 1)), (''ids'', Data (Ref 3))] (Ref 0),
         HArray [RStr ''p''] (Ref 1),
         HObject [(''toString'', Data (RFun ''toString'')), (''__proto__'', ProtoAccessor)] (Ref 0),
         HObject [(''length'', Data (RNum 0)), (''push'', Data (RFun ''push''))] (Ref 0),
         HObject [(''a'', Data (RNum 1)), (''ids'', Data (Ref 7))] (Ref 0),
         HArray [RStr ''p''] (Ref 1)],
        Returns (Ref 6))
   \<and> get_property_ref
        (fst (arglet_store small_realm plain_process small_store (Ref 2)
                (Tokens [''--__proto__.toString=x'']) None))
        (Ref 2) ''toString''
     = RStr ''x''
   \<and> get_property_ref small_store (Ref 2) ''toString'' = RFun ''toString''"
  by code_simp


text \<open>
  The writes do mutate the object they are given: the argument loop applied to the
  schema itself, without the clone, changes it in place. That the own data of the
  schema stays as it was is due to \<open>structuredClone\<close>.
\<close>

lemma loop_without_clone_mutates:
  "argument_loop_store small_realm default_options [''--a=5''] (Ref 2) small_store
   = ([HObject [(''toString'', Data (RFun ''toString'')), (''__proto__'', ProtoAccessor)] RNull,
       HObject [(''length'', Data (RNum 0)), (''push'', Data (RFun ''push''))] (Ref 0),
       HObject [(''a'', Data (RStr ''5'')), (''ids'', Data (Ref 3))] (Ref 0),
       HArray [RStr ''p''] (Ref 1)],
      Returns ())"
  by code_simp

text \<open>
  On flags whose paths lead through own properties the store reading and the value
  reading of the code compute the same result; here on a run that sets a string, an
  array, an element of it and a boolean.
\<close>

lemma store_and_value_readings_agree:
  "(case arglet_store small_realm plain_process
           [HObject [(''toString'', Data (RFun ''toString'')), (''__proto__'', ProtoAccessor)] RNull,
            HObject [(''length'', Data (RNum 0)), (''push'', Data (RFun ''push''))] (Ref 0),
            HObject [(''server'', Data (Ref 3)), (''ids'', Data (Ref 4)), (''watch'', Data (RBool False))] (Ref 0),
            HObject [(''host'', Data (RStr ''localhost'')), (''port'', Data (RStr ''3000''))] (Ref 0),
            HArray [] (Ref 1)]
           (Ref 2)
           (Tokens [''--server.host=0.0.0.0'', ''--ids=1,2,3'', ''--ids.1'', ''z'', ''--watch'']) None of
      (h', Returns result) \<Rightarrow> Returns (snapshot small_realm 3 h' result)
    | (h', Throws e) \<Rightarrow> Throws e
    | (h', Unmodelled) \<Rightarrow> Unmodelled)
   = arglet plain_process
       (Obj [(''server'', Obj [(''host'', Str ''localhost''), (''port'', Str ''3000'')]),
             (''ids'', Arr []), (''watch'', Bool False)])
       (Tokens [''--server.host=0.0.0.0'', ''--ids=1,2,3'', ''--ids.1'', ''z'', ''--watch'']) None"
  by code_simp

text \<open>
  With inherited properties followed, a path that \<open>hasConfigPath\<close> accepts still has a
  non-null object at every segment before the last (a function on the way, such as
  \<open>toString\<close>, is not of type \<open>object\<close>), so the walk of \<open>assignValueAtPath\<close> along it does
  not come to line 143.
\<close>

lemma foldl_resolve_ref_Undefined [simp]: "foldl (resolve_step_ref h) RUndefined segs = RUndefined"
  by (induction segs) (simp_all add: resolve_step_ref_def)

lemma resolve_ref_child_is_object:
  assumes "foldl (resolve_step_ref h) current (segment # rest) \<noteq> RUndefined" "rest \<noteq> []"
  shows "typeof_ref (get_property_ref h current segment) = TObject
         \<and> get_property_ref h current segment \<noteq> RNull
         \<and> resolve_step_ref h current segment = get_property_ref h current segment"
proof -
  obtain k ks where rest: "rest = k # ks" using assms(2) by (cases rest) auto
  let ?c = "resolve_step_ref h current segment"
  from assms(1) rest have 1: "foldl (resolve_step_ref h) (resolve_step_ref h ?c k) ks \<noteq> RUndefined"
    by simp
  then have "resolve_step_ref h ?c k \<noteq> RUndefined"
    by (cases "resolve_step_ref h ?c k = RUndefined") simp_all
  then have c: "truthy_ref ?c" "typeof_ref ?c = TObject"
    by (auto simp: resolve_step_ref_def split: if_splits)
  then have "?c \<noteq> RUndefined" by auto
  then have "?c = get_property_ref h current segment"
    by (auto simp: resolve_step_ref_def split: if_splits)
  with c show ?thesis by auto
qed

lemma replacement_not_reached:
  "foldl (resolve_step_ref h) current segs \<noteq> RUndefined \<Longrightarrow> \<not> reaches_replacement h segs current"
proof (induction segs arbitrary: current)
  case Nil
  then show ?case by simp
next
  case (Cons segment rest)
  show ?case
  proof (cases "segment = [] \<or> rest = []")
    case True
    then show ?thesis by auto
  next
    case False
    then have rest: "rest \<noteq> []" by simp
    note child = resolve_ref_child_is_object [OF Cons.prems rest]
    from Cons.prems child have "foldl (resolve_step_ref h) (get_property_ref h current segment) rest \<noteq> RUndefined"
      by simp
    from Cons.IH [OF this] child False show ?thesis by (simp add: Let_def)
  qed
qed

lemma accepted_path_has_no_replacement:
  "hasConfigPath_store h result path \<Longrightarrow> \<not> reaches_replacement h (segments path) result"
  by (simp add: hasConfigPath_store_def resolveValueAtPath_store_def replacement_not_reached)

subsection \<open>Array indices as decimal numerals\<close>

lemma parse_nat_snoc: "parse_nat (s @ [c]) = 10 * parse_nat s + ((of_char c :: nat) - 48)"
  by (simp add: parse_nat_def)

lemma of_char_digit_char: "d < 10 \<Longrightarrow> (of_char (digit_char d) :: nat) = 48 + d"
  by (simp add: digit_char_def)

lemma is_digit_digit_char: "d < 10 \<Longrightarrow> is_digit (digit_char d)"
  by (simp add: is_digit_def of_char_digit_char)

lemma digit_char_of_char:
  assumes "is_digit c"
  shows "digit_char ((of_char c :: nat) - 48) = c"
proof -
  from assms have "48 + ((of_char c :: nat) - 48) = of_char c" by (simp add: is_digit_def)
  then show ?thesis by (simp add: digit_char_def)
qed

lemma parse_nat_decimal: "parse_nat (decimal n) = n"
proof (induction n rule: decimal.induct)
  case (1 n)
  show ?case
  proof (cases "n < 10")
    case True
    then show ?thesis
      by (simp add: decimal.simps [of n] parse_nat_def of_char_digit_char)
  next
    case False
    with 1 have "parse_nat (decimal (n div 10)) = n div 10" by simp
    with False show ?thesis
      by (simp add: decimal.simps [of n] parse_nat_snoc of_char_digit_char)
  qed
qed

lemma decimal_digits: "list_all is_digit (decimal n)"
proof (induction n rule: decimal.induct)
  case (1 n)
  then show ?case
    by (cases "n < 10") (simp_all add: decimal.simps [of n] is_digit_digit_char)
qed

lemma decimal_not_Nil [simp]: "decimal n \<noteq> []"
  by (subst decimal.simps) simp

lemma digit_zero_iff:
  assumes "is_digit c"
  shows "c = CHR ''0'' \<longleftrightarrow> (of_char c :: nat) - 48 = 0"
proof -
  have "c = CHR ''0'' \<longleftrightarrow> (of_char c :: nat) = of_char CHR ''0''"
    by (simp only: of_char_eq_iff)
  also have "\<dots> \<longleftrightarrow> (of_char c :: nat) = 48" by simp
  also have "\<dots> \<longleftrightarrow> (of_char c :: nat) - 48 = 0"
    using assms by (auto simp: is_digit_def)
  finally show ?thesis .
qed

lemma digit_char_zero: "d < 10 \<Longrightarrow> digit_char d = CHR ''0'' \<longleftrightarrow> d = 0"
  using digit_zero_iff [OF is_digit_digit_char, of d] by (simp add: of_char_digit_char)

lemma decimal_canonical: "length (decimal n) = 1 \<or> hd (decimal n) \<noteq> CHR ''0''"
proof (induction n rule: decimal.induct)
  case (1 n)
  show ?case
  proof (cases "n < 10")
    case True
    then show ?thesis by (simp add: decimal.simps [of n])
  next
    case False
    then have big: "n div 10 \<noteq> 0" by simp
    from False 1 have IH: "length (decimal (n div 10)) = 1 \<or> hd (decimal (n div 10)) \<noteq> CHR ''0''"
      by simp
    have "hd (decimal (n div 10)) \<noteq> CHR ''0''"
    proof (cases "n div 10 < 10")
      case True
      with big show ?thesis by (simp add: decimal.simps [of "n div 10"] digit_char_zero)
    next
      case f: False
      then have "length (decimal (n div 10)) \<noteq> 1"
        by (simp add: decimal.simps [of "n div 10"])
      with IH show ?thesis by simp
    qed
    with False show ?thesis by (simp add: decimal.simps [of n])
  qed
qed

lemma array_index_decimal: "i < length xs \<Longrightarrow> array_index xs (decimal i) = Some i"
  using decimal_canonical [of i] decimal_digits [of i]
  by (simp add: array_index_def parse_nat_decimal)

lemma canonical_positive:
  assumes "k \<noteq> []" "hd k \<noteq> CHR ''0''" "list_all is_digit k"
  shows "0 < parse_nat k"
  using assms
proof (induction k rule: rev_induct)
  case Nil
  then show ?case by simp
next
  case (snoc c s)
  show ?case
  proof (cases "s = []")
    case True
    with snoc.prems have "is_digit c" "c \<noteq> CHR ''0''" by simp_all
    then have "(of_char c :: nat) - 48 \<noteq> 0" using digit_zero_iff by blast
    with True show ?thesis by (simp add: parse_nat_def)
  next
    case False
    with snoc have "0 < parse_nat s" by simp
    then show ?thesis by (simp add: parse_nat_snoc)
  qed
qed

lemma decimal_parse_nat:
  assumes "k \<noteq> []" "list_all is_digit k" "length k = 1 \<or> hd k \<noteq> CHR ''0''"
  shows "decimal (parse_nat k) = k"
  using assms
proof (induction k rule: rev_induct)
  case Nil
  then show ?case by simp
next
  case (snoc c s)
  from snoc.prems have c: "is_digit c" by simp
  then have small: "(of_char c :: nat) - 48 < 10" by (auto simp: is_digit_def)
  show ?case
  proof (cases "s = []")
    case True
    with small c show ?thesis
      by (simp add: parse_nat_def decimal.simps [of "of_char c - 48"] digit_char_of_char)
  next
    case False
    with snoc.prems have s: "list_all is_digit s" "hd s \<noteq> CHR ''0''" by auto
    from canonical_positive [OF False s(2,1)] have pos: "0 < parse_nat s" .
    from snoc.IH [OF False s(1)] s(2) have IH: "decimal (parse_nat s) = s" by simp
    let ?n = "10 * parse_nat s + ((of_char c :: nat) - 48)"
    from pos have "\<not> ?n < 10" by simp
    moreover from small have "?n div 10 = parse_nat s" "?n mod 10 = (of_char c :: nat) - 48" by simp_all
    ultimately show ?thesis
      using IH c by (simp add: parse_nat_snoc decimal.simps [of ?n] digit_char_of_char)
  qed
qed

lemma array_index_Some_iff: "array_index xs k = Some i \<longleftrightarrow> i < length xs \<and> k = decimal i"
proof
  assume "array_index xs k = Some i"
  then have "k \<noteq> []" "list_all is_digit k" "length k = 1 \<or> hd k \<noteq> CHR ''0''"
    "parse_nat k = i" "i < length xs"
    by (auto simp: array_index_def split: if_splits)
  with decimal_parse_nat [of k] show "i < length xs \<and> k = decimal i" by auto
next
  assume "i < length xs \<and> k = decimal i"
  then show "array_index xs k = Some i" by (simp add: array_index_decimal)
qed


subsection \<open>What an assignment changes\<close>

lemma look_Nil [simp]: "look node [] = node"
  by (simp add: look_def)

lemma look_Cons [simp]: "look node (k # q) = look (resolve_step node k) q"
  by (simp add: look_def)

lemma look_append: "look node (p @ q) = look (look node p) q"
  by (simp add: look_def)

lemma look_Undefined [simp]: "look Undefined q = Undefined"
  by (simp add: look_def)

lemma resolve_step_Obj: "resolve_step (Obj kvs) k = (case map_of kvs k of Some v \<Rightarrow> v | None \<Rightarrow> Undefined)"
  by (simp add: resolve_step_def split: option.splits)

lemma resolve_step_Arr:
  "resolve_step (Arr xs) k =
     (if k = ''length'' then Num (int (length xs))
      else (case array_index xs k of Some i \<Rightarrow> xs ! i | None \<Rightarrow> Undefined))"
  by (simp add: resolve_step_def split: option.splits)

lemma resolve_step_leaf: "typeof node \<noteq> TObject \<or> node = Null \<Longrightarrow> resolve_step node k = Undefined"
  by (cases node) (simp_all add: resolve_step_def)

lemma shape_Undefined [simp]: "shape v = shape Undefined \<longleftrightarrow> v = Undefined"
  by (cases v) simp_all

lemma shape_Undefined' [simp]: "shape Undefined = shape v \<longleftrightarrow> v = Undefined"
  by (cases v) auto

lemma shape_Leaf_Undefined [simp]:
  "shape v = Leaf Undefined \<longleftrightarrow> v = Undefined" "Leaf Undefined = shape v \<longleftrightarrow> v = Undefined"
  by (cases v; auto)+

text \<open>One property write.\<close>

lemma map_fst_update: "map_of kvs k \<noteq> None \<Longrightarrow> map fst (AList.update k v kvs) = map fst kvs"
  by (induction kvs) auto

lemma set_property_shape:
  assumes "set_property node seg c = Returns node'" "has_property seg node"
  shows "shape node' = shape node"
  using assms by (cases node) (auto simp: map_fst_update split: option.splits)

lemma set_property_other:
  assumes "set_property node seg c = Returns node'" "k \<noteq> seg"
  shows "resolve_step node' k = resolve_step node k"
proof (cases node)
  case (Arr xs)
  with assms obtain i where i: "array_index xs seg = Some i" "node' = Arr (xs[i := c])"
    by (auto split: option.splits)
  then have seg: "seg = decimal i" "i < length xs" by (simp_all add: array_index_Some_iff)
  show ?thesis
  proof (cases "array_index xs k")
    case None
    with Arr i show ?thesis by (simp add: resolve_step_Arr)
  next
    case (Some j)
    then have "k = decimal j" by (simp add: array_index_Some_iff)
    with seg assms(2) have "j \<noteq> i" by auto
    with Arr i Some show ?thesis by (simp add: resolve_step_Arr)
  qed
next
  case (Obj kvs)
  with assms show ?thesis by (auto simp: resolve_step_Obj update_conv')
qed (use assms in simp_all)

text \<open>The effect of an assignment on what the paths lead to.\<close>

lemma assign_loop_inside:
  assumes "assign_loop p v s = Returns s'" "look s p \<noteq> Undefined" "p \<noteq> []" "[] \<notin> set p"
  shows "look s' (p @ q) = look v q"
proof -
  from assign_loop_read_back [OF assms(2) [unfolded look_def] assms(3,4), of v] assms(1)
  have "look s' p = v" by (simp add: look_def)
  then show ?thesis by (simp add: look_append)
qed

lemma assign_loop_outside:
  assumes "assign_loop p v s = Returns s'" "look s p \<noteq> Undefined" "p \<noteq> []" "[] \<notin> set p"
      and "\<not> prefix p q"
  shows "shape (look s' q) = shape (look s q) \<and> (\<not> prefix q p \<longrightarrow> look s' q = look s q)"
  using assms
proof (induction p arbitrary: s s' q)
  case Nil
  then show ?case by simp
next
  case (Cons seg rest)
  from Cons.prems have seg: "seg \<noteq> []" by auto
  from Cons.prems(2) have step: "resolve_step s seg \<noteq> Undefined"
    by (cases "resolve_step s seg = Undefined") simp_all
  then have has: "has_property seg s" and child: "resolve_step s seg = get_property s seg"
    using resolve_step_defined by blast+
  obtain c where set: "set_property s seg c = Returns s'"
    and c: "rest = [] \<and> c = v
            \<or> rest \<noteq> [] \<and> assign_loop rest v (get_property s seg) = Returns c"
  proof (cases "rest = []")
    case True
    with seg Cons.prems(1) that show ?thesis by simp
  next
    case False
    note ch = child_is_object [OF Cons.prems(2) [unfolded look_def] False]
    with seg False Cons.prems(1) that show ?thesis
      by (auto simp: Let_def split: outcome.splits)
  qed
  show ?case
  proof (cases q)
    case Nil
    with set has show ?thesis by (simp add: set_property_shape)
  next
    case q: (Cons k q')
    show ?thesis
    proof (cases "k = seg")
      case False
      with q set_property_other [OF set False] show ?thesis by simp
    next
      case True
      from resolve_step_set_property [OF set] have new: "resolve_step s' seg = c" .
      from c show ?thesis
      proof
        assume "rest = [] \<and> c = v"
        with True q Cons.prems(5) show ?thesis by simp
      next
        assume rest: "rest \<noteq> [] \<and> assign_loop rest v (get_property s seg) = Returns c"
        from Cons.prems(2) child have "look (get_property s seg) rest \<noteq> Undefined" by simp
        moreover from Cons.prems(4) have "[] \<notin> set rest" by auto
        moreover from Cons.prems(5) True q have "\<not> prefix rest q'" by simp
        ultimately have "shape (look c q') = shape (look (get_property s seg) q')
             \<and> (\<not> prefix q' rest \<longrightarrow> look c q' = look (get_property s seg) q')"
          using Cons.IH rest by blast
        with True q new child show ?thesis by simp
      qed
    qed
  qed
qed


lemma alist_eqI:
  assumes "map fst xs = map fst ys" "distinct (map fst xs)"
      and "\<And>k. k \<in> fst ` set xs \<Longrightarrow> map_of xs k = map_of ys k"
  shows "xs = ys"
  using assms
proof (induction xs arbitrary: ys)
  case Nil
  then show ?case by simp
next
  case (Cons x xs)
  from Cons.prems(1) obtain y ys' where ys: "ys = y # ys'" "fst x = fst y" "map fst xs = map fst ys'"
    by (cases ys) auto
  from Cons.prems(3) [of "fst x"] ys have "snd x = snd y" by simp
  with ys have head: "x = y" by (simp add: prod_eq_iff)
  have "map_of xs k = map_of ys' k" if "k \<in> fst ` set xs" for k
  proof -
    from Cons.prems(2) have "fst x \<notin> fst ` set xs" by simp
    with that have "k \<noteq> fst x" by blast
    with Cons.prems(3) [of k] that ys show ?thesis by simp
  qed
  with Cons.IH [OF ys(3)] Cons.prems(2) have "xs = ys'" by simp
  with head ys show ?case by simp
qed

lemma decimal_not_length: "decimal i \<noteq> ''length''"
proof
  assume "decimal i = ''length''"
  with array_index_decimal [of i "replicate (Suc i) Undefined"] show False by simp
qed

lemma look_Arr_index: "i < length xs \<Longrightarrow> look (Arr xs) (decimal i # q) = look (xs ! i) q"
  by (simp add: resolve_step_Arr decimal_not_length array_index_decimal)

lemma look_Obj_key: "map_of kvs k = Some v \<Longrightarrow> look (Obj kvs) (k # q) = look v q"
  by (simp add: resolve_step_Obj)

lemma tree_ext:
  assumes "distinct_keys s" "distinct_keys r" "\<And>q. shape (look s q) = shape (look r q)"
  shows "s = r"
  using assms
proof (induction s arbitrary: r)
  case (Arr xs)
  from Arr.prems(3) [of "[]"] obtain ys where r: "r = Arr ys" "length ys = length xs"
    by (cases r) auto
  have "xs ! i = ys ! i" if "i < length xs" for i
  proof (rule Arr.IH)
    from that show "xs ! i \<in> set xs" by simp
    from that Arr.prems(1) show "distinct_keys (xs ! i)" by (simp add: list_all_length)
    from that Arr.prems(2) r show "distinct_keys (ys ! i)" by (simp add: list_all_length)
    show "shape (look (xs ! i) q) = shape (look (ys ! i) q)" for q
      using Arr.prems(3) [of "decimal i # q"] that r by (simp only: look_Arr_index)
  qed
  with r show ?case by (simp add: nth_equalityI)
next
  case (Obj kvs)
  from Obj.prems(3) [of "[]"] obtain kvs' where r: "r = Obj kvs'" "map fst kvs' = map fst kvs"
    by (cases r) auto
  have "map_of kvs k = map_of kvs' k" if "k \<in> fst ` set kvs" for k
  proof -
    from that obtain v where v: "(k, v) \<in> set kvs" by auto
    with Obj.prems(1) have mv: "map_of kvs k = Some v" by simp
    from that r have "k \<in> fst ` set kvs'" by (metis set_map)
    then obtain v' where v': "(k, v') \<in> set kvs'" by auto
    with Obj.prems(2) r have mv': "map_of kvs' k = Some v'" by simp
    have "v = v'"
    proof (rule Obj.IH)
      show "(k, v) \<in> set kvs" by (rule v)
      show "v \<in> Basic_BNFs.snds (k, v)" by simp
      from v Obj.prems(1) show "distinct_keys v" by (auto simp: list_all_iff)
      from v' Obj.prems(2) r show "distinct_keys v'" by (auto simp: list_all_iff)
      show "shape (look v q) = shape (look v' q)" for q
        using Obj.prems(3) [of "k # q"] r by (simp only: look_Obj_key [OF mv] look_Obj_key [OF mv'])
    qed
    with mv mv' show ?thesis by simp
  qed
  with r Obj.prems(1) have "kvs = kvs'" by (intro alist_eqI) simp_all
  with r show ?case by simp
next
  case Undefined
  from Undefined.prems(3) [of "[]"] show ?case by (cases r) simp_all
next
  case Null
  from Null.prems(3) [of "[]"] show ?case by (cases r) simp_all
next
  case (Bool b)
  from Bool.prems(3) [of "[]"] show ?case by (cases r) simp_all
next
  case (Num n)
  from Num.prems(3) [of "[]"] show ?case by (cases r) simp_all
next
  case (Str t)
  from Str.prems(3) [of "[]"] show ?case by (cases r) simp_all
qed


lemma dispatch_parseFlag:
  "dispatch opts token rest s = parseFlag opts (Some (flag_name token)) (flag_value token rest) s"
proof (cases "includesChar (drop 2 token) (CHR ''='')")
  case True
  then show ?thesis by (simp add: dispatch_explicit_value flag_value_def)
next
  case False
  then have "flag_name token = drop 2 token"
    by (auto simp: flag_name_def includesChar_def)
  with False show ?thesis
    by (cases rest) (simp_all add: dispatch_def flag_value_def at_index_def Let_def)
qed

lemma parsedValue_defined [simp]: "parsedValue opts name rawValue \<noteq> Undefined"
  by (simp add: parsedValue_def split: option.splits)

lemma parsedValue_distinct [simp]: "distinct_keys (parsedValue opts name rawValue)"
  by (simp add: parsedValue_def list_all_iff split: option.splits)

lemma parseFlag_Returns:
  assumes "parseFlag opts (Some name) rawValue s = Returns s'"
  shows "if effective name s
         then assign_loop (flag_path name) (parsedValue opts name rawValue) s = Returns s'
         else s' = s"
proof (cases "name = [] \<or> \<not> hasConfigPath s (normalizedPath name)")
  case True
  then have "parseFlag opts (Some name) rawValue s = Returns s"
    by (auto simp: parseFlag_def Let_def)
  with assms have "s' = s" by simp
  moreover from True have "\<not> effective name s"
    by (auto simp: effective_def flag_path_def hasConfigPath_def resolveValueAtPath_def look_def)
  ultimately show ?thesis by simp
next
  case False
  then have exists: "hasConfigPath s (normalizedPath name)" and name: "name \<noteq> []" by simp_all
  have assigned: "assignValueAtPath (normalizedPath name) (parsedValue opts name rawValue) s = Returns s'"
    using assms False
    by (auto simp: parseFlag_def Let_def parsedValue_def split: if_splits option.splits)
  show ?thesis
  proof (cases "[] \<in> set (flag_path name)")
    case True
    with assignValueAtPath_empty_segment [OF exists] assigned show ?thesis
      by (simp add: effective_def flag_path_def)
  next
    case False
    with exists name have "effective name s"
      by (simp add: effective_def flag_path_def hasConfigPath_def resolveValueAtPath_def look_def)
    with assigned show ?thesis by (simp add: assignValueAtPath_def flag_path_def)
  qed
qed

text \<open>Assignments keep the keys of every object distinct.\<close>

lemma distinct_keys_get_property: "distinct_keys node \<Longrightarrow> distinct_keys (get_property node key)"
proof (cases node)
  case (Arr xs)
  assume "distinct_keys node"
  with Arr show ?thesis
    by (auto simp: list_all_length dest: array_index_less split: option.splits)
next
  case (Obj kvs)
  assume "distinct_keys node"
  with Obj show ?thesis
    by (auto simp: list_all_iff dest!: map_of_SomeD split: option.splits)
qed simp_all

lemma distinct_keys_set_property:
  assumes "set_property node key c = Returns node'" "distinct_keys node" "distinct_keys c"
  shows "distinct_keys node'"
proof (cases node)
  case (Arr xs)
  with assms show ?thesis
    by (auto simp: list_all_iff dest!: set_update_subset_insert [THEN subsetD] split: option.splits)
next
  case (Obj kvs)
  have "list_all (\<lambda>kv. distinct_keys (snd kv)) (AList.update key c kvs)"
    if "list_all (\<lambda>kv. distinct_keys (snd kv)) kvs"
    using that assms(3) by (induction kvs) auto
  with Obj assms show ?thesis by (auto simp: distinct_update)
qed (use assms in simp_all)

lemma distinct_keys_assign_loop:
  assumes "assign_loop p v s = Returns s'" "distinct_keys s" "distinct_keys v"
  shows "distinct_keys s'"
  using assms
proof (induction p arbitrary: s s')
  case Nil
  then show ?case by simp
next
  case (Cons seg rest)
  show ?case
  proof (cases "seg = []")
    case True
    with Cons.prems show ?thesis by simp
  next
    case seg: False
    show ?thesis
    proof (cases "rest = []")
      case True
      with seg Cons.prems show ?thesis by (auto intro: distinct_keys_set_property)
    next
      case False
      let ?child = "get_property s seg"
      let ?next = "if typeof ?child \<noteq> TObject \<or> ?child = Null then Obj [] else ?child"
      from seg False Cons.prems(1) obtain c where
        c: "assign_loop rest v ?next = Returns c" "set_property s seg c = Returns s'"
        by (auto simp: Let_def split: outcome.splits)
      have "distinct_keys ?next"
        using Cons.prems(2) by (simp add: distinct_keys_get_property)
      from Cons.IH [OF c(1) this Cons.prems(3)] c(2) Cons.prems(2)
      show ?thesis by (rule distinct_keys_set_property [rotated 2])
    qed
  qed
qed

lemma distinct_keys_parseFlag:
  assumes "parseFlag opts (Some name) rawValue s = Returns s'" "distinct_keys s"
  shows "distinct_keys s'"
  using parseFlag_Returns [OF assms(1)] assms(2)
  by (auto split: if_splits intro: distinct_keys_assign_loop)

lemma distinct_keys_argument_loop:
  assumes "argument_loop opts args s = Returns x" "distinct_keys s"
  shows "distinct_keys x"
  using assms
proof (induction args arbitrary: s)
  case Nil
  then show ?case by simp
next
  case (Cons token rest)
  show ?case
  proof (cases "startsWith token ''--''")
    case False
    with Cons show ?thesis by simp
  next
    case True
    with Cons.prems(1) obtain s' where
      s': "dispatch opts token rest s = Returns s'" "argument_loop opts rest s' = Returns x"
      by (auto split: outcome.splits)
    from s'(1) Cons.prems(2) have "distinct_keys s'"
      by (simp add: dispatch_parseFlag distinct_keys_parseFlag)
    with Cons.IH s'(2) show ?thesis by blast
  qed
qed


subsection \<open>Running the same tokens twice\<close>

lemma segments_flag_path [simp]: "flag_path name \<noteq> []"
  by (simp add: flag_path_def)

lemma parseFlag_written:
  assumes "parseFlag opts (Some name) rawValue s = Returns s'" "effective name s"
  shows "written (flag_path name) (parsedValue opts name rawValue) s s'"
proof -
  from parseFlag_Returns [OF assms(1)] assms(2)
  have assign: "assign_loop (flag_path name) (parsedValue opts name rawValue) s = Returns s'"
    by simp
  from assms(2) have path: "look s (flag_path name) \<noteq> Undefined" "[] \<notin> set (flag_path name)"
    by (simp_all add: effective_def)
  show ?thesis
    unfolding written_def
    using assign_loop_inside [OF assign path(1) _ path(2)]
      assign_loop_outside [OF assign path(1) _ path(2)] path(1)
    by simp
qed

lemma written_inside:
  assumes "written p v s s'" "prefix p q"
  shows "look s' q = look v (drop (length p) q)"
proof -
  from assms(2) obtain z where "q = p @ z" by (auto simp: prefix_def)
  with assms(1) show ?thesis by (simp add: written_def)
qed

lemma written_outside_shape:
  assumes "written p v s s'" "\<not> prefix p q"
  shows "shape (look s' q) = shape (look s q)"
  using assms by (simp add: written_def)

lemma written_outside_defined:
  assumes "written p v s s'" "\<not> prefix p q"
  shows "look s' q = Undefined \<longleftrightarrow> look s q = Undefined"
  using written_outside_shape [OF assms] by (metis shape_Undefined)

lemma written_apart:
  assumes "written p v s s'" "\<not> prefix p q" "\<not> prefix q p"
  shows "look s' q = look s q"
  using assms by (simp add: written_def)

lemma written_above:
  assumes "written p v s s'" "strict_prefix q p"
  shows "look s q \<noteq> Undefined"
proof
  assume undefined: "look s q = Undefined"
  from assms(2) obtain z where "p = q @ z" by (auto simp: strict_prefix_def prefix_def)
  with undefined have "look s p = Undefined" by (simp add: look_append)
  with assms(1) show False by (simp add: written_def)
qed

lemma written_self_defined:
  assumes "written p v s s'"
  shows "look s' p \<noteq> Undefined"
  using assms written_inside [OF assms, of p] by (simp add: written_def)

text \<open>One flag applied to the state of the first run and to the state of the second.\<close>

lemma simulation_step:
  assumes agree: "agree (E \<union> P') s r" and anchored: "anchored (E \<union> P') r"
      and first: "if look s p \<noteq> Undefined then E = {p} \<and> written p v s s' else E = {} \<and> s' = s"
      and second: "if look r p \<noteq> Undefined then written p v r r' else r' = r"
      and rooted: "\<And>p'. p' \<in> P' \<Longrightarrow> \<forall>p''\<in>P'. \<not> strict_prefix p'' p' \<Longrightarrow> look s' p' \<noteq> Undefined"
  shows "agree P' s' r' \<and> anchored P' r'"
proof (cases "look s p \<noteq> Undefined")
  case es: True
  with first have E: "E = {p}" and ws: "written p v s s'" by simp_all
  show ?thesis
  proof (cases "look r p \<noteq> Undefined")
    case True
    with second have wr: "written p v r r'" by simp
    have "shape (look s' q) = shape (look r' q)" if q: "\<forall>p'\<in>P'. \<not> prefix p' q" for q
    proof (cases "prefix p q")
      case True
      with ws wr show ?thesis by (simp add: written_inside)
    next
      case False
      with q E have "\<forall>p'\<in>E \<union> P'. \<not> prefix p' q" by simp
      with agree have "shape (look s q) = shape (look r q)" by (simp add: agree_def)
      with False ws wr show ?thesis by (simp add: written_outside_shape)
    qed
    moreover have "look r' p' \<noteq> Undefined"
      if p': "p' \<in> P'" "\<forall>p''\<in>P'. \<not> strict_prefix p'' p'" for p'
    proof (cases "prefix p p'")
      case True
      with ws wr have "look r' p' = look s' p'" by (simp add: written_inside)
      with rooted [OF p'] show ?thesis by simp
    next
      case False
      then have "\<not> strict_prefix p p'" by (simp add: strict_prefix_def)
      with p' E have "\<forall>p''\<in>E \<union> P'. \<not> strict_prefix p'' p'" by simp
      with anchored p'(1) have "look r p' \<noteq> Undefined" by (simp add: anchored_def)
      with written_outside_defined [OF wr False] show ?thesis by simp
    qed
    ultimately show ?thesis by (simp add: agree_def anchored_def)
  next
    case False
    with second have r': "r' = r" by simp
    have "\<exists>p0\<in>P'. strict_prefix p0 p"
    proof (rule ccontr)
      assume "\<not> (\<exists>p0\<in>P'. strict_prefix p0 p)"
      with E have "\<forall>p''\<in>E \<union> P'. \<not> strict_prefix p'' p" by simp
      with anchored E have "look r p \<noteq> Undefined" by (simp add: anchored_def)
      with False show False by simp
    qed
    then obtain p0 where p0: "p0 \<in> P'" "strict_prefix p0 p" by blast
    have "shape (look s' q) = shape (look r' q)" if q: "\<forall>p'\<in>P'. \<not> prefix p' q" for q
    proof -
      have outside: "\<not> prefix p q"
      proof
        assume "prefix p q"
        with p0(2) have "prefix p0 q" by (meson prefix_order.order_trans strict_prefix_def)
        with q p0(1) show False by blast
      qed
      with q E have "\<forall>p'\<in>E \<union> P'. \<not> prefix p' q" by simp
      with agree have "shape (look s q) = shape (look r q)" by (simp add: agree_def)
      with outside ws r' show ?thesis by (simp add: written_outside_shape)
    qed
    moreover have "look r' p' \<noteq> Undefined"
      if p': "p' \<in> P'" "\<forall>p''\<in>P'. \<not> strict_prefix p'' p'" for p'
    proof -
      have "\<not> strict_prefix p p'"
      proof
        assume "strict_prefix p p'"
        with p0(2) have "strict_prefix p0 p'" by (rule prefix_order.less_trans)
        with p' p0(1) show False by blast
      qed
      with p' E have "\<forall>p''\<in>E \<union> P'. \<not> strict_prefix p'' p'" by simp
      with anchored p'(1) r' show ?thesis by (simp add: anchored_def)
    qed
    ultimately show ?thesis by (simp add: agree_def anchored_def)
  qed
next
  case ns: False
  with first have E: "E = {}" and s': "s' = s" by simp_all
  show ?thesis
  proof (cases "look r p \<noteq> Undefined")
    case False
    with second E s' agree anchored show ?thesis by simp
  next
    case True
    with second have wr: "written p v r r'" by simp
    have "\<exists>p0\<in>P'. prefix p0 p"
    proof (rule ccontr)
      assume "\<not> (\<exists>p0\<in>P'. prefix p0 p)"
      with E agree have "shape (look s p) = shape (look r p)" by (simp add: agree_def)
      with ns True show False by simp
    qed
    then obtain p0 where p0: "p0 \<in> P'" "prefix p0 p" by blast
    have "shape (look s' q) = shape (look r' q)" if q: "\<forall>p'\<in>P'. \<not> prefix p' q" for q
    proof -
      have outside: "\<not> prefix p q"
      proof
        assume "prefix p q"
        with p0(2) have "prefix p0 q" by (rule prefix_order.order_trans)
        with q p0(1) show False by blast
      qed
      from q E agree have "shape (look s q) = shape (look r q)" by (simp add: agree_def)
      with outside wr s' show ?thesis by (simp add: written_outside_shape)
    qed
    moreover have "look r' p' \<noteq> Undefined"
      if p': "p' \<in> P'" "\<forall>p''\<in>P'. \<not> strict_prefix p'' p'" for p'
    proof (cases "prefix p p'")
      case True
      with p0(2) have "prefix p0 p'" by (rule prefix_order.order_trans)
      with p' p0(1) have "p0 = p'" by (auto simp: strict_prefix_def)
      with p0(2) True have "p = p'" by (simp add: prefix_order.antisym)
      with written_self_defined [OF wr] show ?thesis by simp
    next
      case False
      from p' E anchored have "look r p' \<noteq> Undefined" by (simp add: anchored_def)
      with written_outside_defined [OF wr False] show ?thesis by simp
    qed
    ultimately show ?thesis by (simp add: agree_def anchored_def)
  qed
qed


lemma argument_loop_flag:
  assumes "startsWith token ''--''" "argument_loop opts (token # rest) s = Returns x"
  obtains s' where
    "parseFlag opts (Some (flag_name token)) (flag_value token rest) s = Returns s'"
    "argument_loop opts rest s' = Returns x"
    "pending opts (token # rest) s
       = (if effective (flag_name token) s then {flag_path (flag_name token)} else {})
         \<union> pending opts rest s'"
proof -
  from assms obtain s' where
    s': "dispatch opts token rest s = Returns s'" "argument_loop opts rest s' = Returns x"
    by (auto split: outcome.splits)
  show ?thesis
  proof (rule that)
    from s'(1) show "parseFlag opts (Some (flag_name token)) (flag_value token rest) s = Returns s'"
      by (simp add: dispatch_parseFlag)
    show "argument_loop opts rest s' = Returns x" by (rule s'(2))
    from assms(1) s'(1)
    show "pending opts (token # rest) s
       = (if effective (flag_name token) s then {flag_path (flag_name token)} else {})
         \<union> pending opts rest s'"
      by simp
  qed
qed

lemma flag_first_run:
  assumes "parseFlag opts (Some name) rawValue s = Returns s'"
  shows "if effective name s
         then written (flag_path name) (parsedValue opts name rawValue) s s'
         else s' = s"
  using parseFlag_Returns [OF assms] parseFlag_written [OF assms] by simp

text \<open>A path that the rest of the run writes, and none of whose proper prefixes it writes, exists.\<close>

lemma pending_rooted:
  assumes "argument_loop opts args s = Returns x" "p \<in> pending opts args s"
      and "\<forall>p'\<in>pending opts args s. \<not> strict_prefix p' p"
  shows "look s p \<noteq> Undefined"
  using assms
proof (induction args arbitrary: s)
  case Nil
  then show ?case by simp
next
  case (Cons token rest)
  show ?case
  proof (cases "startsWith token ''--''")
    case False
    with Cons show ?thesis by simp
  next
    case True
    from True Cons.prems(1) obtain s' where
      flag: "parseFlag opts (Some (flag_name token)) (flag_value token rest) s = Returns s'"
      and run: "argument_loop opts rest s' = Returns x"
      and pend: "pending opts (token # rest) s
         = (if effective (flag_name token) s then {flag_path (flag_name token)} else {})
           \<union> pending opts rest s'"
      by (rule argument_loop_flag)
    let ?p0 = "flag_path (flag_name token)"
    show ?thesis
    proof (cases "effective (flag_name token) s")
      case False
      with flag_first_run [OF flag] have "s' = s" by simp
      with Cons.IH [OF run] Cons.prems(2,3) pend False show ?thesis by simp
    next
      case True
      with flag_first_run [OF flag] have w: "written ?p0 (parsedValue opts (flag_name token) (flag_value token rest)) s s'"
        by simp
      show ?thesis
      proof (cases "p = ?p0")
        case True
        with w show ?thesis by (simp add: written_def)
      next
        case False
        with Cons.prems(2) pend \<open>effective (flag_name token) s\<close>
        have mem: "p \<in> pending opts rest s'" by simp
        from Cons.prems(3) pend have "\<forall>p'\<in>pending opts rest s'. \<not> strict_prefix p' p" by simp
        from Cons.IH [OF run mem this] have defined: "look s' p \<noteq> Undefined" .
        from Cons.prems(3) pend True have "\<not> strict_prefix ?p0 p" by simp
        with False have outside: "\<not> prefix ?p0 p" by (simp add: strict_prefix_def)
        with written_outside_defined [OF w outside] defined show ?thesis by simp
      qed
    qed
  qed
qed

lemma defined_kept:
  assumes "argument_loop opts args s = Returns x" "look s p \<noteq> Undefined"
      and "\<forall>p'\<in>pending opts args s. \<not> strict_prefix p' p"
  shows "look x p \<noteq> Undefined"
  using assms
proof (induction args arbitrary: s)
  case Nil
  then show ?case by simp
next
  case (Cons token rest)
  show ?case
  proof (cases "startsWith token ''--''")
    case False
    with Cons show ?thesis by simp
  next
    case True
    from True Cons.prems(1) obtain s' where
      flag: "parseFlag opts (Some (flag_name token)) (flag_value token rest) s = Returns s'"
      and run: "argument_loop opts rest s' = Returns x"
      and pend: "pending opts (token # rest) s
         = (if effective (flag_name token) s then {flag_path (flag_name token)} else {})
           \<union> pending opts rest s'"
      by (rule argument_loop_flag)
    let ?p0 = "flag_path (flag_name token)"
    from Cons.prems(3) pend have rest: "\<forall>p'\<in>pending opts rest s'. \<not> strict_prefix p' p" by simp
    have "look s' p \<noteq> Undefined"
    proof (cases "effective (flag_name token) s")
      case False
      with flag_first_run [OF flag] Cons.prems(2) show ?thesis by simp
    next
      case True
      with flag_first_run [OF flag] have w: "written ?p0 (parsedValue opts (flag_name token) (flag_value token rest)) s s'"
        by simp
      from Cons.prems(3) pend True have not_above: "\<not> strict_prefix ?p0 p" by simp
      show ?thesis
      proof (cases "p = ?p0")
        case True
        with written_self_defined [OF w] show ?thesis by simp
      next
        case False
        with not_above have "\<not> prefix ?p0 p" by (simp add: strict_prefix_def)
        with written_outside_defined [OF w this] Cons.prems(2) show ?thesis by simp
      qed
    qed
    from Cons.IH [OF run this rest] show ?thesis .
  qed
qed

lemma first_run_anchored:
  assumes "argument_loop opts args s = Returns x"
  shows "anchored (pending opts args s) x"
  using assms
proof (induction args arbitrary: s)
  case Nil
  then show ?case by (simp add: anchored_def)
next
  case (Cons token rest)
  show ?case
  proof (cases "startsWith token ''--''")
    case False
    with Cons show ?thesis by simp
  next
    case True
    from True Cons.prems(1) obtain s' where
      flag: "parseFlag opts (Some (flag_name token)) (flag_value token rest) s = Returns s'"
      and run: "argument_loop opts rest s' = Returns x"
      and pend: "pending opts (token # rest) s
         = (if effective (flag_name token) s then {flag_path (flag_name token)} else {})
           \<union> pending opts rest s'"
      by (rule argument_loop_flag)
    let ?p0 = "flag_path (flag_name token)"
    let ?P = "pending opts (token # rest) s"
    from Cons.IH [OF run] have IH: "anchored (pending opts rest s') x" .
    have "look x p \<noteq> Undefined" if p: "p \<in> ?P" "\<forall>p'\<in>?P. \<not> strict_prefix p' p" for p
    proof (cases "p \<in> pending opts rest s'")
      case True
      moreover from p(2) pend have "\<forall>p'\<in>pending opts rest s'. \<not> strict_prefix p' p" by simp
      ultimately show ?thesis using IH by (simp add: anchored_def)
    next
      case False
      with p(1) pend have eff: "effective (flag_name token) s" and p0: "p = ?p0"
        by (auto split: if_splits)
      with flag_first_run [OF flag]
      have w: "written ?p0 (parsedValue opts (flag_name token) (flag_value token rest)) s s'"
        by simp
      from p(2) pend have "\<forall>p'\<in>pending opts rest s'. \<not> strict_prefix p' p" by simp
      with defined_kept [OF run, of p] written_self_defined [OF w] p0 show ?thesis by simp
    qed
    then show ?thesis by (simp add: anchored_def)
  qed
qed

lemma first_run_agree:
  assumes "argument_loop opts args s = Returns x"
  shows "agree (pending opts args s) s x"
  using assms
proof (induction args arbitrary: s)
  case Nil
  then show ?case by (simp add: agree_def)
next
  case (Cons token rest)
  show ?case
  proof (cases "startsWith token ''--''")
    case False
    with Cons show ?thesis by simp
  next
    case True
    from True Cons.prems(1) obtain s' where
      flag: "parseFlag opts (Some (flag_name token)) (flag_value token rest) s = Returns s'"
      and run: "argument_loop opts rest s' = Returns x"
      and pend: "pending opts (token # rest) s
         = (if effective (flag_name token) s then {flag_path (flag_name token)} else {})
           \<union> pending opts rest s'"
      by (rule argument_loop_flag)
    let ?p0 = "flag_path (flag_name token)"
    let ?P = "pending opts (token # rest) s"
    from Cons.IH [OF run] have IH: "agree (pending opts rest s') s' x" .
    have "shape (look s q) = shape (look x q)" if q: "\<forall>p\<in>?P. \<not> prefix p q" for q
    proof -
      from q pend have "\<forall>p\<in>pending opts rest s'. \<not> prefix p q" by simp
      with IH have later: "shape (look s' q) = shape (look x q)" by (simp add: agree_def)
      show ?thesis
      proof (cases "effective (flag_name token) s")
        case False
        with flag_first_run [OF flag] later show ?thesis by simp
      next
        case True
        with flag_first_run [OF flag]
        have w: "written ?p0 (parsedValue opts (flag_name token) (flag_value token rest)) s s'"
          by simp
        from q pend True have "\<not> prefix ?p0 q" by simp
        with written_outside_shape [OF w this] later show ?thesis by simp
      qed
    qed
    then show ?thesis by (simp add: agree_def)
  qed
qed

lemma simulation:
  assumes "argument_loop opts args s = Returns x" "argument_loop opts args r = Returns y"
      and "agree (pending opts args s) s r" "anchored (pending opts args s) r"
  shows "agree {} x y"
  using assms
proof (induction args arbitrary: s r)
  case Nil
  then show ?case by simp
next
  case (Cons token rest)
  show ?case
  proof (cases "startsWith token ''--''")
    case False
    with Cons show ?thesis by simp
  next
    case True
    let ?name = "flag_name token"
    let ?p = "flag_path ?name"
    let ?v = "parsedValue opts ?name (flag_value token rest)"
    from True Cons.prems(1) obtain s' where
      first: "parseFlag opts (Some ?name) (flag_value token rest) s = Returns s'"
      and run1: "argument_loop opts rest s' = Returns x"
      and pend: "pending opts (token # rest) s
         = (if effective ?name s then {?p} else {}) \<union> pending opts rest s'"
      by (rule argument_loop_flag)
    from True Cons.prems(2) obtain r' where
      second: "parseFlag opts (Some ?name) (flag_value token rest) r = Returns r'"
      and run2: "argument_loop opts rest r' = Returns y"
      by (rule argument_loop_flag)
    let ?E = "if effective ?name s then {?p} else {}"
    let ?P' = "pending opts rest s'"
    have "agree ?P' s' r' \<and> anchored ?P' r'"
    proof (cases "?name \<noteq> [] \<and> [] \<notin> set ?p")
      case False
      then have "\<not> effective ?name s" "\<not> effective ?name r" by (auto simp: effective_def)
      with flag_first_run [OF first] flag_first_run [OF second] pend Cons.prems(3,4)
      show ?thesis by simp
    next
      case ok: True
      then have eff: "effective ?name t \<longleftrightarrow> look t ?p \<noteq> Undefined" for t
        by (simp add: effective_def)
      show ?thesis
      proof (rule simulation_step [where E = ?E and p = ?p and v = ?v and s = s and r = r])
        from Cons.prems(3) pend show "agree (?E \<union> ?P') s r" by simp
        from Cons.prems(4) pend show "anchored (?E \<union> ?P') r" by simp
        from flag_first_run [OF first]
        show "if look s ?p \<noteq> Undefined then ?E = {?p} \<and> written ?p ?v s s' else ?E = {} \<and> s' = s"
          by (simp add: eff)
        from flag_first_run [OF second]
        show "if look r ?p \<noteq> Undefined then written ?p ?v r r' else r' = r"
          by (simp add: eff)
        show "look s' p' \<noteq> Undefined"
          if "p' \<in> ?P'" "\<forall>p''\<in>?P'. \<not> strict_prefix p'' p'" for p'
          using pending_rooted [OF run1 that] .
      qed
    qed
    with Cons.IH [OF run1 run2] show ?thesis by simp
  qed
qed

lemma argument_loop_twice:
  assumes "distinct_keys S"
      and "argument_loop opts args S = Returns R" "argument_loop opts args R = Returns R'"
  shows "R' = R"
proof -
  from simulation [OF assms(2,3) first_run_agree [OF assms(2)] first_run_anchored [OF assms(2)]]
  have "shape (look R q) = shape (look R' q)" for q by (simp add: agree_def)
  moreover from assms(1,2) have "distinct_keys R" by (rule distinct_keys_argument_loop [rotated])
  moreover from this assms(3) have "distinct_keys R'" by (rule distinct_keys_argument_loop [rotated])
  ultimately show ?thesis using tree_ext [of R R'] by simp
qed

text \<open>
  So on the first reading, where a schema is a tree and a flag resolves through own
  properties, a second call that returns gives the result of the first.
\<close>

lemma arglet_twice:
  assumes "distinct_keys S"
      and "arglet proc S argsOrOptions explicitOptions = Returns R"
      and "arglet proc R argsOrOptions explicitOptions = Returns R'"
  shows "R' = R"
  using assms by (auto simp: arglet_def structuredClone_def Let_def intro: argument_loop_twice)

subsection \<open>The two readings on trees of plain data\<close>

text \<open>
  On a store whose schema is a tree of plain data, and for flags whose paths name no
  inherited property, the run on the store does what the first reading computes. The
  lemmas below follow the code: reading a property, writing one, the walk of
  \<open>assignValueAtPath\<close>, \<open>parseFlag\<close>, the argument loop, the clone, \<open>arglet\<close>.
\<close>

inductive_cases plain_tree_RefE: "plain_tree realm h (Ref a) x F"
inductive_cases plain_tree_ObjE: "plain_tree realm h v (Obj kvs) F"
inductive_cases plain_tree_ArrE: "plain_tree realm h v (Arr xs) F"
inductive_cases plain_props_ConsE: "plain_props realm h props (kv # kvs) F"
inductive_cases plain_props_NilE: "plain_props realm h props [] F"
inductive_cases plain_props_ConsE': "plain_props realm h (p # props) kvs F"
inductive_cases plain_props_NilE': "plain_props realm h [] kvs F"
inductive_cases plain_elems_ConsE: "plain_elems realm h vs (x # xs) F"
inductive_cases plain_elems_NilE: "plain_elems realm h vs [] F"
inductive_cases plain_elems_ConsE': "plain_elems realm h (v # vs) xs F"
inductive_cases plain_elems_NilE': "plain_elems realm h [] xs F"

text \<open>
  A tree occupies allocated addresses other than the prototypes, and it is the same
  tree in every store that holds the same objects at these addresses.
\<close>

lemma footprint_allocated:
  "plain_tree realm h v x F \<Longrightarrow> (\<forall>a\<in>F. a < length h \<and> \<not> is_prototype realm a)"
  "plain_props realm h props kvs F \<Longrightarrow> (\<forall>a\<in>F. a < length h \<and> \<not> is_prototype realm a)"
  "plain_elems realm h vs xs F \<Longrightarrow> (\<forall>a\<in>F. a < length h \<and> \<not> is_prototype realm a)"
  by (induction rule: plain_tree_plain_props_plain_elems.inducts)
     (auto simp: object_at_def split: if_splits)

lemma plain_frame:
  "plain_tree realm h v x F \<Longrightarrow> length h \<le> length h' \<Longrightarrow> (\<forall>a\<in>F. h' ! a = h ! a)
     \<Longrightarrow> plain_tree realm h' v x F"
  "plain_props realm h props kvs F \<Longrightarrow> length h \<le> length h' \<Longrightarrow> (\<forall>a\<in>F. h' ! a = h ! a)
     \<Longrightarrow> plain_props realm h' props kvs F"
  "plain_elems realm h vs xs F \<Longrightarrow> length h \<le> length h' \<Longrightarrow> (\<forall>a\<in>F. h' ! a = h ! a)
     \<Longrightarrow> plain_elems realm h' vs xs F"
proof (induction rule: plain_tree_plain_props_plain_elems.inducts)
  case (tree_object a props kvs F)
  then have "object_at h' a = Some (HObject props (Ref (object_prototype realm)))"
    by (auto simp: object_at_def split: if_splits)
  with tree_object show ?case by (auto intro: plain_tree_plain_props_plain_elems.intros)
next
  case (tree_array a vs xs F)
  then have "object_at h' a = Some (HArray vs (Ref (array_prototype realm)))"
    by (auto simp: object_at_def split: if_splits)
  with tree_array show ?case by (auto intro: plain_tree_plain_props_plain_elems.intros)
qed (auto intro: plain_tree_plain_props_plain_elems.intros)

lemma plain_tree_typeof:
  assumes "plain_tree realm h v x F"
  shows "typeof_ref v = typeof x" "truthy_ref v = truthy x" "v = RUndefined \<longleftrightarrow> x = Undefined"
    "v = RNull \<longleftrightarrow> x = Null"
  using assms by (cases rule: plain_tree.cases; simp)+

text \<open>Reading: a step of \<open>resolveValueAtPath\<close> on a tree gives the tree of the child.\<close>

lemma array_index_cong: "length xs = length ys \<Longrightarrow> array_index xs k = array_index ys k"
  by (simp add: array_index_def)

lemma plain_elems_length: "plain_elems realm h vs xs F \<Longrightarrow> length vs = length xs"
  by (induction vs arbitrary: xs F) (auto elim: plain_elems_ConsE' plain_elems_NilE')

lemma plain_elems_nth:
  "plain_elems realm h vs xs F \<Longrightarrow> i < length xs
   \<Longrightarrow> \<exists>G. G \<subseteq> F \<and> plain_tree realm h (vs ! i) (xs ! i) G"
proof (induction vs arbitrary: xs F i)
  case Nil
  then show ?case by (auto elim: plain_elems_NilE')
next
  case (Cons v vs)
  from Cons.prems(1) obtain x xs' Fv G where
    xs: "xs = x # xs'" and F: "F = Fv \<union> G" and v: "plain_tree realm h v x Fv"
    and rest: "plain_elems realm h vs xs' G"
    by (auto elim: plain_elems_ConsE')
  show ?case
  proof (cases i)
    case 0
    with xs F v show ?thesis by auto
  next
    case (Suc j)
    with Cons.prems(2) xs have "j < length xs'" by simp
    from Cons.IH [OF rest this] Suc xs F show ?thesis by auto
  qed
qed

lemma plain_props_map_of:
  "plain_props realm h props kvs F \<Longrightarrow>
     (case map_of kvs key of
        None \<Rightarrow> map_of props key = None
      | Some x \<Rightarrow> \<exists>v G. map_of props key = Some (Data v) \<and> G \<subseteq> F \<and> plain_tree realm h v x G)"
proof (induction props arbitrary: kvs F)
  case Nil
  then show ?case by (auto elim: plain_props_NilE')
next
  case (Cons p props)
  from Cons.prems obtain k v x kvs' Fv G where
    p: "p = (k, Data v)" and kvs: "kvs = (k, x) # kvs'" and F: "F = Fv \<union> G"
    and v: "plain_tree realm h v x Fv" and rest: "plain_props realm h props kvs' G"
    by (auto elim: plain_props_ConsE')
  show ?case
  proof (cases "k = key")
    case True
    with p kvs F v show ?thesis by auto
  next
    case False
    with Cons.IH [OF rest] p kvs F show ?thesis by (auto split: option.splits)
  qed
qed

text \<open>A key that the prototypes do not have is found on an object itself or not at all.\<close>

lemma find_property_RNull [simp]: "find_property n h RNull key = None"
  by (cases n) simp_all

lemma find_object_prototype:
  assumes "standard realm h" "\<not> inherited realm h key"
  shows "find_property n h (Ref (object_prototype realm)) key = None"
  using assms by (cases n) (auto simp: standard_def inherited_def object_at_def)

lemma find_array_prototype:
  assumes "standard realm h" "\<not> inherited realm h key"
  shows "find_property n h (Ref (array_prototype realm)) key = None"
proof (cases n)
  case 0
  then show ?thesis by simp
next
  case (Suc m)
  with assms find_object_prototype [OF assms, of m] show ?thesis
    by (auto simp: standard_def inherited_def object_at_def)
qed

lemma find_property_object:
  assumes "standard realm h" "\<not> inherited realm h key"
      and "object_at h a = Some (HObject props (Ref (object_prototype realm)))"
  shows "find_property (length h) h (Ref a) key = map_of props key"
proof -
  from assms(3) have "a < length h" by (auto simp: object_at_def split: if_splits)
  then obtain m where "length h = Suc m" by (cases "length h") auto
  with assms(3) find_object_prototype [OF assms(1,2), of m] show ?thesis
    by (simp split: option.splits)
qed

lemma find_property_array:
  assumes "standard realm h" "\<not> inherited realm h key"
      and "object_at h a = Some (HArray vs (Ref (array_prototype realm)))"
  shows "find_property (length h) h (Ref a) key = own_property (HArray vs (Ref (array_prototype realm))) key"
proof -
  from assms(3) have "a < length h" by (auto simp: object_at_def split: if_splits)
  then obtain m where "length h = Suc m" by (cases "length h") auto
  with assms(3) find_array_prototype [OF assms(1,2), of m] show ?thesis
    by (simp split: option.splits)
qed

lemma resolve_step_tree:
  assumes "standard realm h" "\<not> inherited realm h key" "plain_tree realm h v x F"
  shows "\<exists>G. G \<subseteq> F \<and> plain_tree realm h (resolve_step_ref h v key) (resolve_step x key) G
         \<and> (resolve_step x key \<noteq> Undefined \<longrightarrow>
              resolve_step_ref h v key = get_property_ref h v key \<and> (\<forall>a. v = Ref a \<longrightarrow> a \<notin> G))"
  using assms(3)
proof (cases rule: plain_tree.cases)
  case (tree_object a props kvs F')
  note find = find_property_object [OF assms(1,2) tree_object(4)]
  from plain_props_map_of [OF tree_object(5), of key]
  show ?thesis
  proof (cases "map_of kvs key")
    case None
    with plain_props_map_of [OF tree_object(5), of key] tree_object find
    show ?thesis
      by (auto simp: resolve_step_ref_def resolve_step_def has_property_ref_def
          intro: plain_tree_plain_props_plain_elems.intros)
  next
    case (Some xc)
    with plain_props_map_of [OF tree_object(5), of key] obtain vc G where
      "map_of props key = Some (Data vc)" "G \<subseteq> F'" "plain_tree realm h vc xc G"
      by auto
    with Some tree_object find show ?thesis
      by (auto simp: resolve_step_ref_def resolve_step_def has_property_ref_def get_property_ref_def
          intro!: exI [of _ G])
  qed
next
  case (tree_array a vs xs F')
  note find = find_property_array [OF assms(1,2) tree_array(4)]
  note len = plain_elems_length [OF tree_array(5)]
  show ?thesis
  proof (cases "key = ''length''")
    case True
    with tree_array find len show ?thesis
      by (auto simp: resolve_step_ref_def resolve_step_def has_property_ref_def get_property_ref_def
          intro!: exI [of _ "{}"] intro: plain_tree_plain_props_plain_elems.intros)
  next
    case False
    show ?thesis
    proof (cases "array_index xs key")
      case None
      with False tree_array find array_index_cong [OF len, of key] show ?thesis
        by (auto simp: resolve_step_ref_def resolve_step_def has_property_ref_def
            intro: plain_tree_plain_props_plain_elems.intros)
    next
      case (Some i)
      then have "i < length xs" by (rule array_index_less)
      from plain_elems_nth [OF tree_array(5) this] obtain G where
        "G \<subseteq> F'" "plain_tree realm h (vs ! i) (xs ! i) G" by auto
      with Some False tree_array find array_index_cong [OF len, of key] show ?thesis
        by (auto simp: resolve_step_ref_def resolve_step_def has_property_ref_def get_property_ref_def
            intro!: exI [of _ G])
    qed
  qed
qed (auto simp: resolve_step_ref_def resolve_step_def intro: plain_tree_plain_props_plain_elems.intros)

lemma resolve_path_tree:
  assumes "standard realm h" "\<forall>key\<in>set segs. \<not> inherited realm h key" "plain_tree realm h v x F"
  shows "\<exists>G. G \<subseteq> F \<and> plain_tree realm h (foldl (resolve_step_ref h) v segs) (foldl resolve_step x segs) G"
  using assms(2,3)
proof (induction segs arbitrary: v x F)
  case Nil
  then show ?case by auto
next
  case (Cons key segs)
  from Cons.prems have "\<not> inherited realm h key" by simp
  from resolve_step_tree [OF assms(1) this Cons.prems(2)] obtain G where
    G: "G \<subseteq> F" "plain_tree realm h (resolve_step_ref h v key) (resolve_step x key) G" by auto
  from Cons.prems have "\<forall>key\<in>set segs. \<not> inherited realm h key" by simp
  from Cons.IH [OF this G(2)] G(1) show ?case by auto
qed

text \<open>
  Replacing a child: the properties of an object, or the elements of an array, stay a
  forest when the child under one key is replaced by a tree on addresses apart from
  those of the other children, in a store that keeps the other children.
\<close>

lemma props_replace:
  assumes "plain_props realm h props kvs F"
  shows "\<exists>Fc. Fc \<subseteq> F
         \<and> (case map_of kvs key of
              None \<Rightarrow> map_of props key = None
            | Some xc \<Rightarrow> \<exists>vc. map_of props key = Some (Data vc) \<and> plain_tree realm h vc xc Fc)
         \<and> (\<forall>h' v' x' F'.
              length h \<le> length h' \<longrightarrow> (\<forall>b\<in>F - Fc. h' ! b = h ! b)
              \<longrightarrow> plain_tree realm h' v' x' F' \<longrightarrow> F' \<inter> (F - Fc) = {}
              \<longrightarrow> (\<exists>F''. F'' \<subseteq> (F - Fc) \<union> F'
                     \<and> plain_props realm h' (AList.update key (Data v') props)
                          (AList.update key x' kvs) F''))"
  using assms
proof (induction props arbitrary: kvs F)
  case Nil
  then have kvs: "kvs = []" and F: "F = {}" by (auto elim: plain_props_NilE')
  have "\<exists>F''. F'' \<subseteq> F' \<and> plain_props realm h' [(key, Data v')] [(key, x')] F''"
    if "plain_tree realm h' v' x' F'" for h' v' x' F'
    using props_cons [OF that props_nil] by auto
  with kvs F show ?case by (auto intro!: exI [of _ "{}"])
next
  case (Cons p props)
  from Cons.prems obtain k v x kvs' Fv G where
    p: "p = (k, Data v)" and kvs: "kvs = (k, x) # kvs'" and F: "F = Fv \<union> G"
    and v: "plain_tree realm h v x Fv" and rest: "plain_props realm h props kvs' G"
    and disjoint: "Fv \<inter> G = {}"
    by (auto elim: plain_props_ConsE')
  show ?case
  proof (cases "k = key")
    case True
    have repl: "\<exists>F''. F'' \<subseteq> (F - Fv) \<union> F'
            \<and> plain_props realm h' (AList.update key (Data v') (p # props))
                 (AList.update key x' kvs) F''"
      if h': "length h \<le> length h'" "\<forall>b\<in>F - Fv. h' ! b = h ! b"
        and new: "plain_tree realm h' v' x' F'" "F' \<inter> (F - Fv) = {}"
      for h' v' x' F'
    proof -
      from F disjoint have G: "F - Fv = G" by auto
      with h' have "plain_props realm h' props kvs' G"
        using plain_frame(2) [OF rest] by simp
      from props_cons [OF new(1) this, of key] new(2) G True p kvs show ?thesis
        by (auto intro!: exI [of _ "F' \<union> G"])
    qed
    have A: "Fv \<subseteq> F" using F by simp
    have B: "case map_of kvs key of
               None \<Rightarrow> map_of (p # props) key = None
             | Some xc \<Rightarrow> \<exists>vc. map_of (p # props) key = Some (Data vc) \<and> plain_tree realm h vc xc Fv"
      using True p kvs v by simp
    from repl have C: "\<forall>h' v' x' F'.
              length h \<le> length h' \<longrightarrow> (\<forall>b\<in>F - Fv. h' ! b = h ! b)
              \<longrightarrow> plain_tree realm h' v' x' F' \<longrightarrow> F' \<inter> (F - Fv) = {}
              \<longrightarrow> (\<exists>F''. F'' \<subseteq> (F - Fv) \<union> F'
                     \<and> plain_props realm h' (AList.update key (Data v') (p # props))
                          (AList.update key x' kvs) F'')" by blast
    show ?thesis by (rule exI [of _ Fv]) (rule conjI [OF A conjI [OF B C]])
  next
    case False
    from Cons.IH [OF rest] obtain Fc where
      Fc: "Fc \<subseteq> G"
      and old: "case map_of kvs' key of
                  None \<Rightarrow> map_of props key = None
                | Some xc \<Rightarrow> \<exists>vc. map_of props key = Some (Data vc) \<and> plain_tree realm h vc xc Fc"
      and step: "\<And>h' v' x' F'. length h \<le> length h' \<Longrightarrow> (\<forall>b\<in>G - Fc. h' ! b = h ! b)
              \<Longrightarrow> plain_tree realm h' v' x' F' \<Longrightarrow> F' \<inter> (G - Fc) = {}
              \<Longrightarrow> (\<exists>F''. F'' \<subseteq> (G - Fc) \<union> F'
                     \<and> plain_props realm h' (AList.update key (Data v') props)
                          (AList.update key x' kvs') F'')"
      by blast
    have repl: "\<exists>F''. F'' \<subseteq> (F - Fc) \<union> F'
            \<and> plain_props realm h' (AList.update key (Data v') (p # props))
                 (AList.update key x' kvs) F''"
      if h': "length h \<le> length h'" "\<forall>b\<in>F - Fc. h' ! b = h ! b"
        and new: "plain_tree realm h' v' x' F'" "F' \<inter> (F - Fc) = {}"
      for h' v' x' F'
    proof -
      from F Fc disjoint have Fv: "Fv \<subseteq> F - Fc" by auto
      with h' have "\<forall>a\<in>Fv. h' ! a = h ! a" by blast
      with h' have head: "plain_tree realm h' v x Fv"
        by (intro plain_frame(1) [OF v]) simp_all
      from F h' new have "\<forall>b\<in>G - Fc. h' ! b = h ! b" "F' \<inter> (G - Fc) = {}" by auto
      from step [OF h'(1) this(1) new(1) this(2)] obtain F'' where
        F'': "F'' \<subseteq> (G - Fc) \<union> F'"
        "plain_props realm h' (AList.update key (Data v') props) (AList.update key x' kvs') F''"
        by auto
      from F'' Fv disjoint new(2) have "Fv \<inter> F'' = {}" by auto
      from F''(1) Fv F have "Fv \<union> F'' \<subseteq> (F - Fc) \<union> F'" by auto
      with props_cons [OF head F''(2) \<open>Fv \<inter> F'' = {}\<close>, of k] False p kvs show ?thesis
        by (auto intro!: exI [of _ "Fv \<union> F''"])
    qed
    have A: "Fc \<subseteq> F" using F Fc by auto
    have B: "case map_of kvs key of
               None \<Rightarrow> map_of (p # props) key = None
             | Some xc \<Rightarrow> \<exists>vc. map_of (p # props) key = Some (Data vc) \<and> plain_tree realm h vc xc Fc"
      using False p kvs old by (auto split: option.splits)
    from repl have C: "\<forall>h' v' x' F'.
              length h \<le> length h' \<longrightarrow> (\<forall>b\<in>F - Fc. h' ! b = h ! b)
              \<longrightarrow> plain_tree realm h' v' x' F' \<longrightarrow> F' \<inter> (F - Fc) = {}
              \<longrightarrow> (\<exists>F''. F'' \<subseteq> (F - Fc) \<union> F'
                     \<and> plain_props realm h' (AList.update key (Data v') (p # props))
                          (AList.update key x' kvs) F'')" by blast
    show ?thesis by (rule exI [of _ Fc]) (rule conjI [OF A conjI [OF B C]])
  qed
qed

lemma elems_replace:
  assumes "plain_elems realm h vs xs F" "i < length xs"
  shows "\<exists>Fc. Fc \<subseteq> F \<and> plain_tree realm h (vs ! i) (xs ! i) Fc
         \<and> (\<forall>h' v' x' F'.
              length h \<le> length h' \<longrightarrow> (\<forall>b\<in>F - Fc. h' ! b = h ! b)
              \<longrightarrow> plain_tree realm h' v' x' F' \<longrightarrow> F' \<inter> (F - Fc) = {}
              \<longrightarrow> (\<exists>F''. F'' \<subseteq> (F - Fc) \<union> F'
                     \<and> plain_elems realm h' (vs[i := v']) (xs[i := x']) F''))"
  using assms
proof (induction vs arbitrary: xs F i)
  case Nil
  then show ?case by (auto elim: plain_elems_NilE')
next
  case (Cons v vs)
  from Cons.prems(1) obtain x xs' Fv G where
    xs: "xs = x # xs'" and F: "F = Fv \<union> G" and v: "plain_tree realm h v x Fv"
    and rest: "plain_elems realm h vs xs' G" and disjoint: "Fv \<inter> G = {}"
    by (auto elim: plain_elems_ConsE')
  show ?case
  proof (cases i)
    case 0
    have repl: "\<exists>F''. F'' \<subseteq> (F - Fv) \<union> F'
            \<and> plain_elems realm h' ((v # vs)[i := v']) (xs[i := x']) F''"
      if h': "length h \<le> length h'" "\<forall>b\<in>F - Fv. h' ! b = h ! b"
        and new: "plain_tree realm h' v' x' F'" "F' \<inter> (F - Fv) = {}"
      for h' v' x' F'
    proof -
      from F disjoint have G: "F - Fv = G" by auto
      with h' have "plain_elems realm h' vs xs' G"
        using plain_frame(3) [OF rest] by simp
      from elems_cons [OF new(1) this] new(2) G 0 xs show ?thesis
        by (auto intro!: exI [of _ "F' \<union> G"])
    qed
    have A: "Fv \<subseteq> F" using F by simp
    have B: "plain_tree realm h ((v # vs) ! i) (xs ! i) Fv" using 0 xs v by simp
    from repl have C: "\<forall>h' v' x' F'.
              length h \<le> length h' \<longrightarrow> (\<forall>b\<in>F - Fv. h' ! b = h ! b)
              \<longrightarrow> plain_tree realm h' v' x' F' \<longrightarrow> F' \<inter> (F - Fv) = {}
              \<longrightarrow> (\<exists>F''. F'' \<subseteq> (F - Fv) \<union> F'
                     \<and> plain_elems realm h' ((v # vs)[i := v']) (xs[i := x']) F'')" by blast
    show ?thesis by (rule exI [of _ Fv]) (rule conjI [OF A conjI [OF B C]])
  next
    case (Suc j)
    with Cons.prems(2) xs have j: "j < length xs'" by simp
    from Cons.IH [OF rest j] obtain Fc where
      Fc: "Fc \<subseteq> G"
      and old: "plain_tree realm h (vs ! j) (xs' ! j) Fc"
      and step: "\<And>h' v' x' F'. length h \<le> length h' \<Longrightarrow> (\<forall>b\<in>G - Fc. h' ! b = h ! b)
              \<Longrightarrow> plain_tree realm h' v' x' F' \<Longrightarrow> F' \<inter> (G - Fc) = {}
              \<Longrightarrow> (\<exists>F''. F'' \<subseteq> (G - Fc) \<union> F'
                     \<and> plain_elems realm h' (vs[j := v']) (xs'[j := x']) F'')"
      by blast
    have repl: "\<exists>F''. F'' \<subseteq> (F - Fc) \<union> F'
            \<and> plain_elems realm h' ((v # vs)[i := v']) (xs[i := x']) F''"
      if h': "length h \<le> length h'" "\<forall>b\<in>F - Fc. h' ! b = h ! b"
        and new: "plain_tree realm h' v' x' F'" "F' \<inter> (F - Fc) = {}"
      for h' v' x' F'
    proof -
      from F Fc disjoint have Fv: "Fv \<subseteq> F - Fc" by auto
      with h' have "\<forall>a\<in>Fv. h' ! a = h ! a" by blast
      with h' have head: "plain_tree realm h' v x Fv"
        by (intro plain_frame(1) [OF v]) simp_all
      from F h' new have "\<forall>b\<in>G - Fc. h' ! b = h ! b" "F' \<inter> (G - Fc) = {}" by auto
      from step [OF h'(1) this(1) new(1) this(2)] obtain F'' where
        F'': "F'' \<subseteq> (G - Fc) \<union> F'"
        "plain_elems realm h' (vs[j := v']) (xs'[j := x']) F''"
        by auto
      from F'' Fv disjoint new(2) have "Fv \<inter> F'' = {}" by auto
      from F''(1) Fv F have "Fv \<union> F'' \<subseteq> (F - Fc) \<union> F'" by auto
      with elems_cons [OF head F''(2) \<open>Fv \<inter> F'' = {}\<close>] Suc xs show ?thesis
        by (auto intro!: exI [of _ "Fv \<union> F''"])
    qed
    have A: "Fc \<subseteq> F" using F Fc by auto
    have B: "plain_tree realm h ((v # vs) ! i) (xs ! i) Fc" using Suc xs old by simp
    from repl have C: "\<forall>h' v' x' F'.
              length h \<le> length h' \<longrightarrow> (\<forall>b\<in>F - Fc. h' ! b = h ! b)
              \<longrightarrow> plain_tree realm h' v' x' F' \<longrightarrow> F' \<inter> (F - Fc) = {}
              \<longrightarrow> (\<exists>F''. F'' \<subseteq> (F - Fc) \<union> F'
                     \<and> plain_elems realm h' ((v # vs)[i := v']) (xs[i := x']) F'')" by blast
    show ?thesis by (rule exI [of _ Fc]) (rule conjI [OF A conjI [OF B C]])
  qed
qed

text \<open>
  Writing: \<open>currentNode[segment] = value\<close> on the root of a tree, and the root after the
  subtree under a key has changed.
\<close>

lemma plain_tree_root: "plain_tree realm h (Ref a) x F \<Longrightarrow> a \<in> F \<and> a < length h"
  by (auto elim!: plain_tree_RefE simp: object_at_def split: if_splits)

lemma plain_tree_object_is_ref:
  assumes "plain_tree realm h v x F" "typeof x = TObject" "x \<noteq> Null"
  shows "\<exists>c. v = Ref c"
  using assms by (cases rule: plain_tree.cases) simp_all

lemma tree_write:
  assumes st: "standard realm h" and ni: "\<not> inherited realm h key"
      and t: "plain_tree realm h (Ref a) x F" and n: "plain_tree realm h v' x' F'"
      and d: "F \<inter> F' = {}"
  shows "case set_property x key x' of
           Returns x'' \<Rightarrow>
             \<exists>h' F''. set_property_at realm h a key v' = (h', Returns ())
               \<and> plain_tree realm h' (Ref a) x'' F'' \<and> F'' \<subseteq> F \<union> F'
               \<and> length h' = length h \<and> (\<forall>b. b \<noteq> a \<longrightarrow> h' ! b = h ! b)
         | Throws e \<Rightarrow> False
         | Unmodelled \<Rightarrow> snd (set_property_at realm h a key v') = Unmodelled"
  using t
proof (cases rule: plain_tree.cases)
  case (tree_object props kvs Fch)
  then have x: "x = Obj kvs" and F: "F = insert a Fch"
    and cell: "object_at h a = Some (HObject props (Ref (object_prototype realm)))"
    and props: "plain_props realm h props kvs Fch" and fresh: "a \<notin> Fch" "\<not> is_prototype realm a"
    by simp_all
  from cell have len: "a < length h" by (auto simp: object_at_def split: if_splits)
  let ?obj = "HObject (AList.update key (Data v') props) (Ref (object_prototype realm))"
  let ?h' = "h[a := ?obj]"
  from props_replace [OF props, of key] obtain Fc where
    Fc: "Fc \<subseteq> Fch"
    and old: "case map_of kvs key of
                None \<Rightarrow> map_of props key = None
              | Some xc \<Rightarrow> \<exists>vc. map_of props key = Some (Data vc) \<and> plain_tree realm h vc xc Fc"
    and step: "\<And>h' v' x' F'. length h \<le> length h' \<Longrightarrow> (\<forall>b\<in>Fch - Fc. h' ! b = h ! b)
              \<Longrightarrow> plain_tree realm h' v' x' F' \<Longrightarrow> F' \<inter> (Fch - Fc) = {}
              \<Longrightarrow> (\<exists>F''. F'' \<subseteq> (Fch - Fc) \<union> F'
                     \<and> plain_props realm h' (AList.update key (Data v') props)
                          (AList.update key x' kvs) F'')"
    by blast
  from old find_object_prototype [OF st ni, of "length h"] cell
  have wr: "set_property_at realm h a key v' = (?h', Returns ())"
    by (auto simp: set_property_at_def split: option.splits)
  from fresh(1) have 1: "\<forall>b\<in>Fch - Fc. ?h' ! b = h ! b"
    by (metis DiffD1 nth_list_update_neq)
  from d F have "a \<notin> F'" by auto
  then have "\<forall>b\<in>F'. ?h' ! b = h ! b" by (metis nth_list_update_neq)
  then have 2: "plain_tree realm ?h' v' x' F'"
    by (intro plain_frame(1) [OF n]) simp_all
  from d F have 3: "F' \<inter> (Fch - Fc) = {}" by auto
  from step [OF _ 1 2 3] obtain F'' where
    F'': "F'' \<subseteq> (Fch - Fc) \<union> F'"
    "plain_props realm ?h' (AList.update key (Data v') props) (AList.update key x' kvs) F''"
    by auto
  from len have newcell: "object_at ?h' a = Some ?obj" by (simp add: object_at_def)
  from F'' fresh(1) \<open>a \<notin> F'\<close> have notin: "a \<notin> F''" by auto
  from newcell F''(2) notin fresh(2) have "plain_tree realm ?h' (Ref a) (Obj (AList.update key x' kvs)) (insert a F'')"
    by (rule plain_tree_plain_props_plain_elems.tree_object)
  moreover from F'' F have "insert a F'' \<subseteq> F \<union> F'" by auto
  ultimately show ?thesis using wr x by auto
next
  case (tree_array vs xs Fch)
  then have x: "x = Arr xs" and F: "F = insert a Fch"
    and cell: "object_at h a = Some (HArray vs (Ref (array_prototype realm)))"
    and elems: "plain_elems realm h vs xs Fch" and fresh: "a \<notin> Fch" "\<not> is_prototype realm a"
    by simp_all
  from cell have len: "a < length h" by (auto simp: object_at_def split: if_splits)
  note same = array_index_cong [OF plain_elems_length [OF elems], of key]
  show ?thesis
  proof (cases "array_index xs key")
    case None
    with same find_array_prototype [OF st ni, of "length h"] cell x show ?thesis
      by (auto simp: set_property_at_def split: option.splits)
  next
    case (Some i)
    then have i: "i < length xs" by (rule array_index_less)
    from Some have key: "key \<noteq> ''length''" by auto
    let ?obj = "HArray (vs[i := v']) (Ref (array_prototype realm))"
    let ?h' = "h[a := ?obj]"
    from elems_replace [OF elems i] obtain Fc where
      Fc: "Fc \<subseteq> Fch"
      and step: "\<And>h' v' x' F'. length h \<le> length h' \<Longrightarrow> (\<forall>b\<in>Fch - Fc. h' ! b = h ! b)
              \<Longrightarrow> plain_tree realm h' v' x' F' \<Longrightarrow> F' \<inter> (Fch - Fc) = {}
              \<Longrightarrow> (\<exists>F''. F'' \<subseteq> (Fch - Fc) \<union> F'
                     \<and> plain_elems realm h' (vs[i := v']) (xs[i := x']) F'')"
      by blast
    from Some same key cell
    have wr: "set_property_at realm h a key v' = (?h', Returns ())"
      by (auto simp: set_property_at_def split: option.splits)
    from fresh(1) have 1: "\<forall>b\<in>Fch - Fc. ?h' ! b = h ! b"
    by (metis DiffD1 nth_list_update_neq)
    from d F have "a \<notin> F'" by auto
    then have "\<forall>b\<in>F'. ?h' ! b = h ! b" by (metis nth_list_update_neq)
    then have 2: "plain_tree realm ?h' v' x' F'"
      by (intro plain_frame(1) [OF n]) simp_all
    from d F have 3: "F' \<inter> (Fch - Fc) = {}" by auto
    from step [OF _ 1 2 3] obtain F'' where
      F'': "F'' \<subseteq> (Fch - Fc) \<union> F'" "plain_elems realm ?h' (vs[i := v']) (xs[i := x']) F''"
      by auto
    from len have newcell: "object_at ?h' a = Some ?obj" by (simp add: object_at_def)
    from F'' fresh(1) \<open>a \<notin> F'\<close> have notin: "a \<notin> F''" by auto
    from newcell F''(2) notin fresh(2) have "plain_tree realm ?h' (Ref a) (Arr (xs[i := x'])) (insert a F'')"
      by (rule plain_tree_plain_props_plain_elems.tree_array)
    moreover from F'' F have "insert a F'' \<subseteq> F \<union> F'" by auto
    ultimately show ?thesis using wr x Some by auto
  qed
qed

lemma tree_child:
  assumes st: "standard realm h" and ni: "\<not> inherited realm h key"
      and t: "plain_tree realm h (Ref a) x F"
      and obj: "typeof (get_property x key) = TObject" "get_property x key \<noteq> Null"
  shows "\<exists>c Fc. get_property_ref h (Ref a) key = Ref c
           \<and> plain_tree realm h (Ref c) (get_property x key) Fc \<and> Fc \<subseteq> F \<and> a \<notin> Fc
           \<and> (\<forall>h' xc' Fc'.
                length h \<le> length h' \<longrightarrow> (\<forall>b<length h. b \<notin> Fc \<longrightarrow> h' ! b = h ! b)
                \<longrightarrow> plain_tree realm h' (Ref c) xc' Fc' \<longrightarrow> Fc' \<inter> (F - Fc) = {}
                \<longrightarrow> (\<exists>x'' F''. set_property x key xc' = Returns x''
                       \<and> plain_tree realm h' (Ref a) x'' F'' \<and> F'' \<subseteq> (F - Fc) \<union> Fc'))"
  using t
proof (cases rule: plain_tree.cases)
  case (tree_object props kvs Fch)
  then have x: "x = Obj kvs" and F: "F = insert a Fch"
    and cell: "object_at h a = Some (HObject props (Ref (object_prototype realm)))"
    and props: "plain_props realm h props kvs Fch" and fresh: "a \<notin> Fch" "\<not> is_prototype realm a"
    by simp_all
  from cell have len: "a < length h" by (auto simp: object_at_def split: if_splits)
  from obj x obtain xc where xc: "map_of kvs key = Some xc" "get_property x key = xc"
    by (cases "map_of kvs key") auto
  from props_replace [OF props, of key] xc obtain Fc vc where
    Fc: "Fc \<subseteq> Fch"
    and old: "map_of props key = Some (Data vc)" "plain_tree realm h vc xc Fc"
    and step: "\<And>h' v' x' F'. length h \<le> length h' \<Longrightarrow> (\<forall>b\<in>Fch - Fc. h' ! b = h ! b)
              \<Longrightarrow> plain_tree realm h' v' x' F' \<Longrightarrow> F' \<inter> (Fch - Fc) = {}
              \<Longrightarrow> (\<exists>F''. F'' \<subseteq> (Fch - Fc) \<union> F'
                     \<and> plain_props realm h' (AList.update key (Data v') props)
                          (AList.update key x' kvs) F'')"
    by auto
  from plain_tree_object_is_ref [OF old(2)] obj xc obtain c where c: "vc = Ref c" by auto
  from find_property_object [OF st ni cell] old(1) c
  have read: "get_property_ref h (Ref a) key = Ref c" by (simp add: get_property_ref_def)
  have "\<exists>x'' F''. set_property x key xc' = Returns x''
          \<and> plain_tree realm h' (Ref a) x'' F'' \<and> F'' \<subseteq> (F - Fc) \<union> Fc'"
    if h': "length h \<le> length h'" "\<forall>b<length h. b \<notin> Fc \<longrightarrow> h' ! b = h ! b"
      and new: "plain_tree realm h' (Ref c) xc' Fc'" "Fc' \<inter> (F - Fc) = {}"
    for h' xc' Fc'
  proof -
    from footprint_allocated(2) [OF props] h'(2) have 1: "\<forall>b\<in>Fch - Fc. h' ! b = h ! b" by auto
    from new(2) F have 3: "Fc' \<inter> (Fch - Fc) = {}" by auto
    from step [OF h'(1) 1 new(1) 3] c old(1) obtain F'' where
      F'': "F'' \<subseteq> (Fch - Fc) \<union> Fc'" "plain_props realm h' props (AList.update key xc' kvs) F''"
      by (auto simp: update_triv)
    from Fc fresh(1) len h' cell have newcell: "object_at h' a = Some (HObject props (Ref (object_prototype realm)))"
      by (auto simp: object_at_def split: if_splits)
    from new(2) F Fc fresh(1) F''(1) have notin: "a \<notin> F''" by auto
    from newcell F''(2) notin fresh(2) have "plain_tree realm h' (Ref a) (Obj (AList.update key xc' kvs)) (insert a F'')"
      by (rule plain_tree_plain_props_plain_elems.tree_object)
    moreover from F'' F Fc fresh(1) have "insert a F'' \<subseteq> (F - Fc) \<union> Fc'" by auto
    ultimately show ?thesis using x by auto
  qed
  moreover from Fc F fresh(1) have "Fc \<subseteq> F" "a \<notin> Fc" by auto
  moreover from old(2) c xc(2) have "plain_tree realm h (Ref c) (get_property x key) Fc" by simp
  ultimately show ?thesis using read by blast
next
  case (tree_array vs xs Fch)
  then have x: "x = Arr xs" and F: "F = insert a Fch"
    and cell: "object_at h a = Some (HArray vs (Ref (array_prototype realm)))"
    and elems: "plain_elems realm h vs xs Fch" and fresh: "a \<notin> Fch" "\<not> is_prototype realm a"
    by simp_all
  from cell have len: "a < length h" by (auto simp: object_at_def split: if_splits)
  note same = array_index_cong [OF plain_elems_length [OF elems], of key]
  from obj x have key: "key \<noteq> ''length''" by auto
  with obj x obtain i where idx: "array_index xs key = Some i" "get_property x key = xs ! i"
    by (cases "array_index xs key") auto
  then have i: "i < length xs" by (auto dest: array_index_less)
  from elems_replace [OF elems i] obtain Fc where
    Fc: "Fc \<subseteq> Fch"
    and old: "plain_tree realm h (vs ! i) (xs ! i) Fc"
    and step: "\<And>h' v' x' F'. length h \<le> length h' \<Longrightarrow> (\<forall>b\<in>Fch - Fc. h' ! b = h ! b)
              \<Longrightarrow> plain_tree realm h' v' x' F' \<Longrightarrow> F' \<inter> (Fch - Fc) = {}
              \<Longrightarrow> (\<exists>F''. F'' \<subseteq> (Fch - Fc) \<union> F'
                     \<and> plain_elems realm h' (vs[i := v']) (xs[i := x']) F'')"
    by blast
  from plain_tree_object_is_ref [OF old] obj idx obtain c where c: "vs ! i = Ref c" by auto
  from find_property_array [OF st ni cell] idx(1) same key c
  have read: "get_property_ref h (Ref a) key = Ref c" by (simp add: get_property_ref_def)
  have "\<exists>x'' F''. set_property x key xc' = Returns x''
          \<and> plain_tree realm h' (Ref a) x'' F'' \<and> F'' \<subseteq> (F - Fc) \<union> Fc'"
    if h': "length h \<le> length h'" "\<forall>b<length h. b \<notin> Fc \<longrightarrow> h' ! b = h ! b"
      and new: "plain_tree realm h' (Ref c) xc' Fc'" "Fc' \<inter> (F - Fc) = {}"
    for h' xc' Fc'
  proof -
    from footprint_allocated(3) [OF elems] h'(2) have 1: "\<forall>b\<in>Fch - Fc. h' ! b = h ! b" by auto
    from new(2) F have 3: "Fc' \<inter> (Fch - Fc) = {}" by auto
    from c have "vs[i := Ref c] = vs" by (metis list_update_id)
    with step [OF h'(1) 1 new(1) 3] obtain F'' where
      F'': "F'' \<subseteq> (Fch - Fc) \<union> Fc'" "plain_elems realm h' vs (xs[i := xc']) F''"
      by auto
    from Fc fresh(1) len h' cell have newcell: "object_at h' a = Some (HArray vs (Ref (array_prototype realm)))"
      by (auto simp: object_at_def split: if_splits)
    from new(2) F Fc fresh(1) F''(1) have notin: "a \<notin> F''" by auto
    from newcell F''(2) notin fresh(2) have "plain_tree realm h' (Ref a) (Arr (xs[i := xc'])) (insert a F'')"
      by (rule plain_tree_plain_props_plain_elems.tree_array)
    moreover from F'' F Fc fresh(1) have "insert a F'' \<subseteq> (F - Fc) \<union> Fc'" by auto
    ultimately show ?thesis using x idx(1) by auto
  qed
  moreover from Fc F fresh(1) have "Fc \<subseteq> F" "a \<notin> Fc" by auto
  moreover from old c idx(2) have "plain_tree realm h (Ref c) (get_property x key) Fc" by simp
  ultimately show ?thesis using read by blast
qed

text \<open>The walk of \<open>assignValueAtPath\<close> along an existing path.\<close>

lemma assign_loop_tree:
  assumes st: "standard realm h"
  shows "\<forall>key\<in>set segs. \<not> inherited realm h key \<Longrightarrow> plain_tree realm h (Ref cur) x F
     \<Longrightarrow> plain_tree realm h v' x' F' \<Longrightarrow> F \<inter> F' = {}
     \<Longrightarrow> foldl resolve_step x segs \<noteq> Undefined
     \<Longrightarrow> (case assign_loop segs x' x of
           Returns x'' \<Rightarrow>
             \<exists>h' F''. assign_loop_store realm segs v' cur h = (h', Returns ())
               \<and> plain_tree realm h' (Ref cur) x'' F'' \<and> F'' \<subseteq> F \<union> F'
               \<and> length h' = length h \<and> (\<forall>b<length h. b \<notin> F \<longrightarrow> h' ! b = h ! b)
         | Throws e \<Rightarrow> False
         | Unmodelled \<Rightarrow> snd (assign_loop_store realm segs v' cur h) = Unmodelled)"
proof (induction segs arbitrary: cur x F)
  case Nil
  then show ?case by auto
next
  case (Cons seg rest)
  note root = plain_tree_root [OF Cons.prems(2)]
  from Cons.prems(1) have ni: "\<not> inherited realm h seg" by simp
  show ?case
  proof (cases "seg = []")
    case True
    with Cons.prems(2) show ?thesis by auto
  next
    case seg: False
    show ?thesis
    proof (cases "rest = []")
      case True
      show ?thesis
      proof (cases "set_property x seg x'")
        case (Returns x'')
        with tree_write [OF st ni Cons.prems(2,3,4)] obtain h' F'' where
          w: "set_property_at realm h cur seg v' = (h', Returns ())"
          "plain_tree realm h' (Ref cur) x'' F''" "F'' \<subseteq> F \<union> F'" "length h' = length h"
          "\<forall>b. b \<noteq> cur \<longrightarrow> h' ! b = h ! b"
          by auto
        from w(5) root have "\<forall>b<length h. b \<notin> F \<longrightarrow> h' ! b = h ! b" by auto
        with w(1-4) Returns seg True show ?thesis by auto
      next
        case (Throws e)
        with tree_write [OF st ni Cons.prems(2,3,4)] show ?thesis by simp
      next
        case Unmodelled
        with tree_write [OF st ni Cons.prems(2,3,4)] seg True show ?thesis by simp
      qed
    next
      case rest: False
      note child = child_is_object [OF Cons.prems(5) rest]
      from tree_child [OF st ni Cons.prems(2) child(2,3)] obtain c Fc where
        read: "get_property_ref h (Ref cur) seg = Ref c"
        and sub: "plain_tree realm h (Ref c) (get_property x seg) Fc" "Fc \<subseteq> F" "cur \<notin> Fc"
        and rebuild: "\<And>h' xc' Fc'. length h \<le> length h'
                \<Longrightarrow> (\<forall>b<length h. b \<notin> Fc \<longrightarrow> h' ! b = h ! b)
                \<Longrightarrow> plain_tree realm h' (Ref c) xc' Fc' \<Longrightarrow> Fc' \<inter> (F - Fc) = {}
                \<Longrightarrow> (\<exists>x'' F''. set_property x seg xc' = Returns x''
                       \<and> plain_tree realm h' (Ref cur) x'' F'' \<and> F'' \<subseteq> (F - Fc) \<union> Fc')"
        by blast
      from Cons.prems(1) have nis: "\<forall>key\<in>set rest. \<not> inherited realm h key" by simp
      from sub(2) Cons.prems(4) have dis: "Fc \<inter> F' = {}" by auto
      note IH = Cons.IH [OF nis sub(1) Cons.prems(3) dis child(4)]
      from seg rest child(2,3)
      have vrun: "assign_loop (seg # rest) x' x =
          (case assign_loop rest x' (get_property x seg) of
             Returns updated \<Rightarrow> set_property x seg updated
           | Throws e \<Rightarrow> Throws e
           | Unmodelled \<Rightarrow> Unmodelled)"
        by (simp add: Let_def)
      from seg rest read
      have srun: "assign_loop_store realm (seg # rest) v' cur h = assign_loop_store realm rest v' c h"
        by (simp add: Let_def)
      show ?thesis
      proof (cases "assign_loop rest x' (get_property x seg)")
        case (Returns xc')
        with IH obtain h' Fc' where
          run: "assign_loop_store realm rest v' c h = (h', Returns ())"
          and tree: "plain_tree realm h' (Ref c) xc' Fc'" "Fc' \<subseteq> Fc \<union> F'"
          and frame: "length h' = length h" "\<forall>b<length h. b \<notin> Fc \<longrightarrow> h' ! b = h ! b"
          by auto
        from tree(2) Cons.prems(4) have "Fc' \<inter> (F - Fc) = {}" by auto
        from rebuild [OF _ frame(2) tree(1) this] frame(1) obtain x'' F'' where
          x'': "set_property x seg xc' = Returns x''" "plain_tree realm h' (Ref cur) x'' F''"
          "F'' \<subseteq> (F - Fc) \<union> Fc'"
          by auto
        from x''(3) tree(2) sub(2) have "F'' \<subseteq> F \<union> F'" by auto
        moreover from frame(2) sub(2) have "\<forall>b<length h. b \<notin> F \<longrightarrow> h' ! b = h ! b" by auto
        ultimately show ?thesis using vrun srun Returns run x'' frame(1) by auto
      next
        case (Throws e)
        with IH show ?thesis by simp
      next
        case Unmodelled
        with IH vrun srun show ?thesis by simp
      qed
    qed
  qed
qed

text \<open>\<open>assignValueAtPath\<close> and \<open>parseFlag\<close>.\<close>

lemma standard_kept:
  assumes "standard realm h" "length h \<le> length h'"
    "h' ! object_prototype realm = h ! object_prototype realm"
    "h' ! array_prototype realm = h ! array_prototype realm"
  shows "standard realm h'" "inherited realm h' key = inherited realm h key"
  using assms by (auto simp: standard_def inherited_def)

lemma prototypes_outside:
  assumes "standard realm h" "plain_tree realm h v x F"
  shows "object_prototype realm \<notin> F" "array_prototype realm \<notin> F"
    "object_prototype realm < length h" "array_prototype realm < length h"
  using assms footprint_allocated(1) [OF assms(2)]
  by (auto simp: is_prototype_def standard_def)

lemma resolve_defined_is_object:
  assumes "foldl resolve_step x (seg # rest) \<noteq> Undefined"
  shows "typeof x = TObject \<and> x \<noteq> Null"
  using resolve_step_defined [OF foldl_resolve_Cons_defined [OF assms]] by simp

lemma assign_tree:
  assumes st: "standard realm h"
      and ni: "\<forall>key\<in>set (segments path). \<not> inherited realm h key"
      and t: "plain_tree realm h result x F" and n: "plain_tree realm h v' x' F'"
      and d: "F \<inter> F' = {}" and ex: "hasConfigPath x path"
  shows "refines realm h result (assignValueAtPath path x' x)
           (assignValueAtPath_store realm path v' result h)"
proof -
  from ex have defined: "foldl resolve_step x (segments path) \<noteq> Undefined"
    by (simp add: hasConfigPath_def resolveValueAtPath_def)
  obtain seg rest where "segments path = seg # rest"
    using segments_not_Nil [of path] by (cases "segments path") auto
  with defined have "typeof x = TObject \<and> x \<noteq> Null"
    using resolve_defined_is_object by metis
  with plain_tree_object_is_ref [OF t] obtain cur where cur: "result = Ref cur" by auto
  note loop = assign_loop_tree [OF st ni t [unfolded cur] n d defined]
  note protos = prototypes_outside [OF st t]
  show ?thesis
  proof (cases "assign_loop (segments path) x' x")
    case (Returns x'')
    with loop obtain h' F'' where
      r: "assign_loop_store realm (segments path) v' cur h = (h', Returns ())"
      "plain_tree realm h' (Ref cur) x'' F''" "length h' = length h"
      "\<forall>b<length h. b \<notin> F \<longrightarrow> h' ! b = h ! b"
      by auto
    from r(4) protos have "h' ! object_prototype realm = h ! object_prototype realm"
      "h' ! array_prototype realm = h ! array_prototype realm" by auto
    with r(1-3) Returns cur show ?thesis
      by (auto simp: refines_def assignValueAtPath_def assignValueAtPath_store_def)
  next
    case (Throws e)
    with loop show ?thesis by simp
  next
    case Unmodelled
    with loop cur show ?thesis
      by (simp add: refines_def assignValueAtPath_def assignValueAtPath_store_def)
  qed
qed

lemma refines_unchanged:
  "plain_tree realm h result x F \<Longrightarrow> refines realm h result (Returns x) (h, Returns ())"
  by (auto simp: refines_def)

lemma plain_elems_strings: "plain_elems realm h (map RStr parts) (map Str parts) {}"
proof (induction parts)
  case Nil
  show ?case by (simp add: elems_nil)
next
  case (Cons s parts)
  from elems_cons [OF tree_str [of realm h s] Cons] show ?case by simp
qed

lemma refines_extend:
  assumes "refines realm (h @ hs) result out r" "standard realm h"
  shows "refines realm h result out r"
  using assms by (auto simp: refines_def standard_def nth_append split: outcome.splits)

lemma parseFlag_tree:
  assumes st: "standard realm h"
      and ni: "\<forall>key\<in>set (flag_path name). \<not> inherited realm h key"
      and t: "plain_tree realm h result x F"
  shows "refines realm h result (parseFlag opts (Some name) rawValue x)
           (parseFlag_store realm opts (Some name) rawValue result h)"
proof (cases "name = [] \<or> \<not> hasConfigPath x (normalizedPath name)")
  case True
  let ?path = "normalizedPath name"
  from ni have nis: "\<forall>key\<in>set (segments ?path). \<not> inherited realm h key"
    by (simp add: flag_path_def)
  from resolve_path_tree [OF st nis t] obtain G where
    "plain_tree realm h (resolveValueAtPath_store h result ?path) (resolveValueAtPath x ?path) G"
    by (auto simp: resolveValueAtPath_store_def resolveValueAtPath_def)
  from plain_tree_typeof(3) [OF this]
  have "hasConfigPath_store h result ?path = hasConfigPath x ?path"
    by (simp add: hasConfigPath_store_def hasConfigPath_def)
  with True refines_unchanged [OF t] show ?thesis
    by (auto simp: parseFlag_def parseFlag_store_def Let_def)
next
  case False
  let ?path = "normalizedPath name"
  from False have name: "name \<noteq> []" and ex: "hasConfigPath x ?path" by simp_all
  from ni have nis: "\<forall>key\<in>set (segments ?path). \<not> inherited realm h key"
    by (simp add: flag_path_def)
  from resolve_path_tree [OF st nis t] obtain G where
    existing: "plain_tree realm h (resolveValueAtPath_store h result ?path) (resolveValueAtPath x ?path) G"
    by (auto simp: resolveValueAtPath_store_def resolveValueAtPath_def)
  from plain_tree_typeof(3) [OF existing] ex
  have exs: "hasConfigPath_store h result ?path"
    by (simp add: hasConfigPath_store_def hasConfigPath_def)
  note ty = plain_tree_typeof(1) [OF existing]
  have prim: "refines realm h result (assignValueAtPath ?path x' x)
                (assignValueAtPath_store realm ?path v' result h)"
    if "plain_tree realm h v' x' {}" for v' x'
    using assign_tree [OF st nis t that _ ex] by simp
  note bool = prim [OF tree_bool]
  note str = prim [OF tree_str]
  have arr: "refines realm h result (assignValueAtPath ?path (Arr (map Str parts)) x)
                (assignValueAtPath_store realm ?path (Ref (length h)) result
                   (h @ [HArray (map RStr parts) (Ref (array_prototype realm))]))"
    for parts
  proof -
    let ?h1 = "h @ [HArray (map RStr parts) (Ref (array_prototype realm))]"
    note protos = prototypes_outside [OF st t]
    from protos(3,4) have same: "length h \<le> length ?h1"
      "?h1 ! object_prototype realm = h ! object_prototype realm"
      "?h1 ! array_prototype realm = h ! array_prototype realm"
      by (simp_all add: nth_append)
    note st1 = standard_kept(1) [OF st same]
    note inh = standard_kept(2) [OF st same]
    from footprint_allocated(1) [OF t] have alloc: "\<forall>a\<in>F. a < length h" by simp
    then have "\<forall>a\<in>F. ?h1 ! a = h ! a" by (simp add: nth_append)
    then have t1: "plain_tree realm ?h1 result x F"
      by (intro plain_frame(1) [OF t]) simp_all
    from protos(3,4) have "\<not> is_prototype realm (length h)" by (auto simp: is_prototype_def)
    with tree_array [of ?h1 "length h" "map RStr parts" realm "map Str parts" "{}"]
      plain_elems_strings [of realm ?h1 parts]
    have n1: "plain_tree realm ?h1 (Ref (length h)) (Arr (map Str parts)) {length h}"
      by (simp add: object_at_def)
    from alloc have d1: "F \<inter> {length h} = {}" by auto
    from nis inh have nis1: "\<forall>key\<in>set (segments ?path). \<not> inherited realm ?h1 key" by simp
    from assign_tree [OF st1 nis1 t1 n1 d1 ex] show ?thesis
      by (rule refines_extend [OF _ st])
  qed
  from name ex exs ty bool str arr show ?thesis
    by (auto simp: parseFlag_def parseFlag_store_def Let_def refines_def split: option.splits)
qed

text \<open>The argument loop.\<close>

lemma refines_trans:
  assumes "length h \<le> length h'"
    "h' ! object_prototype realm = h ! object_prototype realm"
    "h' ! array_prototype realm = h ! array_prototype realm"
    "refines realm h' result out r"
  shows "refines realm h result out r"
  using assms by (auto simp: refines_def split: outcome.splits)

lemma argument_loop_tree:
  "standard realm h \<Longrightarrow> own_paths_only realm h args \<Longrightarrow> plain_tree realm h result x F
   \<Longrightarrow> refines realm h result (argument_loop opts args x)
         (argument_loop_store realm opts args result h)"
proof (induction args arbitrary: h x F)
  case Nil
  then show ?case by (auto simp: refines_def)
next
  case (Cons token rest)
  from Cons.prems(2) have rest: "own_paths_only realm h rest"
    by (simp add: own_paths_only_def)
  show ?case
  proof (cases "startsWith token ''--''")
    case False
    with Cons.IH [OF Cons.prems(1) rest Cons.prems(3)] show ?thesis by simp
  next
    case True
    with Cons.prems(2) have ni: "\<forall>key\<in>set (flag_path (flag_name token)). \<not> inherited realm h key"
      by (simp add: own_paths_only_def list_all_iff)
    note flag = parseFlag_tree [OF Cons.prems(1) ni Cons.prems(3),
        of opts "flag_value token rest"]
    show ?thesis
    proof (cases "dispatch opts token rest x")
      case (Returns x')
      obtain h' u where run: "dispatch_store realm opts token rest result h = (h', u)"
        by (cases "dispatch_store realm opts token rest result h")
      with flag Returns obtain F' where
        u: "u = Returns ()" and t': "plain_tree realm h' result x' F'"
        and same: "length h \<le> length h'"
        "h' ! object_prototype realm = h ! object_prototype realm"
        "h' ! array_prototype realm = h ! array_prototype realm"
        by (auto simp: refines_def dispatch_parseFlag dispatch_store_parseFlag)
      note st' = standard_kept(1) [OF Cons.prems(1) same]
      from rest standard_kept(2) [OF Cons.prems(1) same]
      have rest': "own_paths_only realm h' rest" by (simp add: own_paths_only_def)
      from refines_trans [OF same Cons.IH [OF st' rest' t']] True Returns run u
      show ?thesis by simp
    next
      case (Throws e)
      with flag True show ?thesis
        by (auto simp: refines_def dispatch_parseFlag dispatch_store_parseFlag
            split: prod.splits outcome.splits)
    next
      case Unmodelled
      with flag True show ?thesis
        by (auto simp: refines_def dispatch_parseFlag dispatch_store_parseFlag
            split: prod.splits outcome.splits)
    qed
  qed
qed

text \<open>The clone of a tree is a tree with the same content, on fresh addresses.\<close>

lemma clone_tree:
  fixes h :: heap and realm :: realm
  defines "n \<equiv> length h"
  defines "h0 \<equiv> h @ map (relocate_object realm (length h)) h"
  assumes st: "standard realm h"
  shows "plain_tree realm h v x F \<Longrightarrow> plain_tree realm h0 (relocate n v) x ((\<lambda>a. a + n) ` F)"
    "plain_props realm h props kvs F
     \<Longrightarrow> plain_props realm h0 (map (\<lambda>(k, p). (k, relocate_property n p)) props) kvs ((\<lambda>a. a + n) ` F)"
    "plain_elems realm h vs xs F
     \<Longrightarrow> plain_elems realm h0 (map (relocate n) vs) xs ((\<lambda>a. a + n) ` F)"
proof (induction rule: plain_tree_plain_props_plain_elems.inducts)
  case (tree_object a props kvs F)
  from tree_object have a: "a < n" "h ! a = HObject props (Ref (object_prototype realm))"
    by (auto simp: object_at_def n_def split: if_splits)
  then have cell: "object_at h0 (a + n)
      = Some (HObject (map (\<lambda>(k, p). (k, relocate_property n p)) props) (Ref (object_prototype realm)))"
    by (simp add: object_at_def h0_def n_def nth_append)
  have ih: "plain_props realm h0 (map (\<lambda>(k, p). (k, relocate_property n p)) props) kvs ((\<lambda>a. a + n) ` F)"
    by fact
  from tree_object have fresh: "a + n \<notin> (\<lambda>a. a + n) ` F" by auto
  from st have "\<not> is_prototype realm (a + n)"
    by (auto simp: is_prototype_def standard_def n_def)
  from plain_tree_plain_props_plain_elems.tree_object [OF cell ih fresh this]
  show ?case by simp
next
  case (tree_array a vs xs F)
  from tree_array have a: "a < n" "h ! a = HArray vs (Ref (array_prototype realm))"
    by (auto simp: object_at_def n_def split: if_splits)
  then have cell: "object_at h0 (a + n)
      = Some (HArray (map (relocate n) vs) (Ref (array_prototype realm)))"
    by (simp add: object_at_def h0_def n_def nth_append)
  have ih: "plain_elems realm h0 (map (relocate n) vs) xs ((\<lambda>a. a + n) ` F)"
    by fact
  from tree_array have fresh: "a + n \<notin> (\<lambda>a. a + n) ` F" by auto
  from st have "\<not> is_prototype realm (a + n)"
    by (auto simp: is_prototype_def standard_def n_def)
  from plain_tree_plain_props_plain_elems.tree_array [OF cell ih fresh this]
  show ?case by simp
next
  case (props_cons v x F props kvs G k)
  have ih: "plain_tree realm h0 (relocate n v) x ((\<lambda>a. a + n) ` F)"
    "plain_props realm h0 (map (\<lambda>(k, p). (k, relocate_property n p)) props) kvs ((\<lambda>a. a + n) ` G)"
    by fact+
  from props_cons have "(\<lambda>a. a + n) ` F \<inter> (\<lambda>a. a + n) ` G = {}" by auto
  from plain_tree_plain_props_plain_elems.props_cons [OF ih this, of k]
  show ?case by (simp add: image_Un)
next
  case (elems_cons v x F vs xs G)
  have ih: "plain_tree realm h0 (relocate n v) x ((\<lambda>a. a + n) ` F)"
    "plain_elems realm h0 (map (relocate n) vs) xs ((\<lambda>a. a + n) ` G)"
    by fact+
  from elems_cons have "(\<lambda>a. a + n) ` F \<inter> (\<lambda>a. a + n) ` G = {}" by auto
  from plain_tree_plain_props_plain_elems.elems_cons [OF ih this]
  show ?case by (simp add: image_Un)
qed (auto intro: plain_tree_plain_props_plain_elems.intros)

text \<open>\<open>arglet\<close>: what the first reading returns, the run on the store returns as a tree.\<close>

lemma arglet_tree:
  assumes st: "standard realm h" and t: "plain_tree realm h data S F"
      and own: "own_paths_only realm h (arguments proc argsOrOptions)"
  shows "case arglet proc S argsOrOptions explicitOptions of
           Returns R \<Rightarrow>
             \<exists>h' result F'. arglet_store realm proc h data argsOrOptions explicitOptions
                               = (h', Returns result)
               \<and> plain_tree realm h' result R F' \<and> standard realm h'
               \<and> own_paths_only realm h' (arguments proc argsOrOptions)
         | Throws e \<Rightarrow> snd (arglet_store realm proc h data argsOrOptions explicitOptions) = Throws e
         | Unmodelled \<Rightarrow> snd (arglet_store realm proc h data argsOrOptions explicitOptions) = Unmodelled"
proof -
  let ?h0 = "h @ map (relocate_object realm (length h)) h"
  let ?result = "relocate (length h) data"
  let ?args = "arguments proc argsOrOptions"
  let ?opts = "resolve_options proc
     (case argsOrOptions of
        Tokens a \<Rightarrow> (case explicitOptions of Some opts \<Rightarrow> opts | None \<Rightarrow> no_options)
      | Options opts \<Rightarrow> opts
      | Absent \<Rightarrow> no_options)"
  from st have same: "length h \<le> length ?h0"
    "?h0 ! object_prototype realm = h ! object_prototype realm"
    "?h0 ! array_prototype realm = h ! array_prototype realm"
    by (simp_all add: nth_append standard_def)
  note st0 = standard_kept(1) [OF st same]
  from own standard_kept(2) [OF st same] have own0: "own_paths_only realm ?h0 ?args"
    by (simp add: own_paths_only_def)
  note t0 = clone_tree(1) [OF st t]
  note loop = argument_loop_tree [OF st0 own0 t0, of ?opts]
  have vrun: "arglet proc S argsOrOptions explicitOptions = argument_loop ?opts ?args S"
    by (simp add: arglet_def structuredClone_def arguments_def Let_def)
  obtain h' u where run: "argument_loop_store realm ?opts ?args ?result ?h0 = (h', u)"
    by (cases "argument_loop_store realm ?opts ?args ?result ?h0")
  then have srun: "arglet_store realm proc h data argsOrOptions explicitOptions
      = (h', case u of Returns w \<Rightarrow> Returns ?result | Throws e \<Rightarrow> Throws e | Unmodelled \<Rightarrow> Unmodelled)"
    by (simp add: arglet_store_def structuredClone_store_def arguments_def Let_def
        split: outcome.splits)
  show ?thesis
  proof (cases "argument_loop ?opts ?args S")
    case (Returns R)
    with loop run obtain F' where
      u: "u = Returns ()" and t': "plain_tree realm h' ?result R F'"
      and same': "length ?h0 \<le> length h'"
      "h' ! object_prototype realm = ?h0 ! object_prototype realm"
      "h' ! array_prototype realm = ?h0 ! array_prototype realm"
      by (auto simp: refines_def)
    note st' = standard_kept(1) [OF st0 same']
    from own0 standard_kept(2) [OF st0 same'] have "own_paths_only realm h' ?args"
      by (simp add: own_paths_only_def)
    with st' t' u Returns vrun srun show ?thesis by auto
  next
    case (Throws e)
    with loop run vrun srun show ?thesis by (simp add: refines_def)
  next
    case Unmodelled
    with loop run vrun srun show ?thesis by (simp add: refines_def)
  qed
qed

text \<open>Two trees with the same content have the same snapshot, to every depth.\<close>

lemma plain_tree_same_kind:
  assumes "plain_tree realm h1 v1 x F1" "plain_tree realm h2 v2 x F2"
  shows "(\<exists>a. v1 = Ref a) \<longleftrightarrow> (\<exists>a. v2 = Ref a)" "(\<forall>a. v1 \<noteq> Ref a) \<longrightarrow> v1 = v2"
proof -
  from assms(1) show "(\<exists>a. v1 = Ref a) \<longleftrightarrow> (\<exists>a. v2 = Ref a)"
    by (cases rule: plain_tree.cases) (use assms(2) in \<open>auto elim: plain_tree.cases\<close>)
  from assms(1) show "(\<forall>a. v1 \<noteq> Ref a) \<longrightarrow> v1 = v2"
    by (cases rule: plain_tree.cases) (use assms(2) in \<open>auto elim: plain_tree.cases\<close>)
qed

lemma snapshot_props:
  assumes IH: "\<And>v1 v2 x F1 F2. plain_tree realm h1 v1 x F1 \<Longrightarrow> plain_tree realm h2 v2 x F2
                \<Longrightarrow> snapshot realm d h1 v1 = snapshot realm d h2 v2"
  shows "plain_props realm h1 props1 kvs G1 \<Longrightarrow> plain_props realm h2 props2 kvs G2
    \<Longrightarrow> map (\<lambda>(k, p). (k, case p of Data v \<Rightarrow> snapshot realm d h1 v | ProtoAccessor \<Rightarrow> Undefined)) props1
      = map (\<lambda>(k, p). (k, case p of Data v \<Rightarrow> snapshot realm d h2 v | ProtoAccessor \<Rightarrow> Undefined)) props2"
proof (induction kvs arbitrary: props1 props2 G1 G2)
  case Nil
  from Nil(1) have "props1 = []" by (rule plain_props_NilE)
  moreover from Nil(2) have "props2 = []" by (rule plain_props_NilE)
  ultimately show ?case by simp
next
  case (Cons kv kvs)
  from Cons.prems(1) obtain k x v1 ps1 A1 B1 where
    1: "kv = (k, x)" "props1 = (k, Data v1) # ps1" "plain_tree realm h1 v1 x A1"
    "plain_props realm h1 ps1 kvs B1"
    by (rule plain_props_ConsE) auto
  from Cons.prems(2) obtain k' x' v2 ps2 A2 B2 where
    2: "kv = (k', x')" "props2 = (k', Data v2) # ps2" "plain_tree realm h2 v2 x' A2"
    "plain_props realm h2 ps2 kvs B2"
    by (rule plain_props_ConsE) auto
  from 1(1) 2(1) have same: "k' = k" "x' = x" by simp_all
  from IH [OF 1(3) 2(3) [unfolded same]] Cons.IH [OF 1(4) 2(4)] 1(2) 2(2) same
  show ?case by simp
qed

lemma snapshot_elems:
  assumes IH: "\<And>v1 v2 x F1 F2. plain_tree realm h1 v1 x F1 \<Longrightarrow> plain_tree realm h2 v2 x F2
                \<Longrightarrow> snapshot realm d h1 v1 = snapshot realm d h2 v2"
  shows "plain_elems realm h1 vs1 xs G1 \<Longrightarrow> plain_elems realm h2 vs2 xs G2
    \<Longrightarrow> map (snapshot realm d h1) vs1 = map (snapshot realm d h2) vs2"
proof (induction xs arbitrary: vs1 vs2 G1 G2)
  case Nil
  from Nil(1) have "vs1 = []" by (rule plain_elems_NilE)
  moreover from Nil(2) have "vs2 = []" by (rule plain_elems_NilE)
  ultimately show ?case by simp
next
  case (Cons x xs)
  from Cons.prems(1) obtain v1 ws1 A1 B1 where
    1: "vs1 = v1 # ws1" "plain_tree realm h1 v1 x A1" "plain_elems realm h1 ws1 xs B1"
    by (rule plain_elems_ConsE) auto
  from Cons.prems(2) obtain v2 ws2 A2 B2 where
    2: "vs2 = v2 # ws2" "plain_tree realm h2 v2 x A2" "plain_elems realm h2 ws2 xs B2"
    by (rule plain_elems_ConsE) auto
  from IH [OF 1(2) 2(2)] Cons.IH [OF 1(3) 2(3)] 1(1) 2(1) show ?case by simp
qed

lemma snapshot_tree:
  "plain_tree realm h1 v1 x F1 \<Longrightarrow> plain_tree realm h2 v2 x F2
   \<Longrightarrow> snapshot realm d h1 v1 = snapshot realm d h2 v2"
proof (induction d arbitrary: v1 v2 x F1 F2)
  case 0
  show ?case
  proof (cases "\<exists>a. v1 = Ref a")
    case True
    with plain_tree_same_kind(1) [OF 0] show ?thesis by auto
  next
    case False
    with plain_tree_same_kind(2) [OF 0] show ?thesis by (cases v2) auto
  qed
next
  case (Suc d)
  from Suc.prems(1) show ?case
  proof (cases rule: plain_tree.cases)
    case (tree_object a1 props1 kvs G1)
    from Suc.prems(2) [unfolded \<open>x = Obj kvs\<close>] obtain a2 props2 G2 where
      2: "v2 = Ref a2" "object_at h2 a2 = Some (HObject props2 (Ref (object_prototype realm)))"
      "plain_props realm h2 props2 kvs G2" "\<not> is_prototype realm a2"
      by (rule plain_tree_ObjE) auto
    from snapshot_props [OF Suc.IH tree_object(5) 2(3)] tree_object 2 show ?thesis
      by (simp add: is_prototype_def)
  next
    case (tree_array a1 vs1 xs G1)
    from Suc.prems(2) [unfolded \<open>x = Arr xs\<close>] obtain a2 vs2 G2 where
      2: "v2 = Ref a2" "object_at h2 a2 = Some (HArray vs2 (Ref (array_prototype realm)))"
      "plain_elems realm h2 vs2 xs G2" "\<not> is_prototype realm a2"
      by (rule plain_tree_ArrE) auto
    from snapshot_elems [OF Suc.IH tree_array(5) 2(3)] tree_array 2 show ?thesis
      by (simp add: is_prototype_def)
  next
    case tree_undefined
    with plain_tree_same_kind(2) [OF Suc.prems] show ?thesis by auto
  next
    case tree_null
    with plain_tree_same_kind(2) [OF Suc.prems] show ?thesis by auto
  next
    case (tree_bool b)
    with plain_tree_same_kind(2) [OF Suc.prems] show ?thesis by auto
  next
    case (tree_num n)
    with plain_tree_same_kind(2) [OF Suc.prems] show ?thesis by auto
  next
    case (tree_str s)
    with plain_tree_same_kind(2) [OF Suc.prems] show ?thesis by auto
  qed
qed

lemma arglet_store_returns:
  assumes st: "standard realm h" and t: "plain_tree realm h data S F"
      and own: "own_paths_only realm h (arguments proc argsOrOptions)"
      and run: "arglet_store realm proc h data argsOrOptions explicitOptions = (h', Returns result)"
  shows "\<exists>R F'. arglet proc S argsOrOptions explicitOptions = Returns R
           \<and> plain_tree realm h' result R F' \<and> standard realm h'
           \<and> own_paths_only realm h' (arguments proc argsOrOptions)"
proof (cases "arglet proc S argsOrOptions explicitOptions")
  case (Returns R)
  with arglet_tree [OF st t own, of explicitOptions] obtain h'' result' F' where
    "arglet_store realm proc h data argsOrOptions explicitOptions = (h'', Returns result')"
    "plain_tree realm h'' result' R F'" "standard realm h''"
    "own_paths_only realm h'' (arguments proc argsOrOptions)"
    by auto
  with run Returns show ?thesis by auto
next
  case (Throws e)
  with arglet_tree [OF st t own, of explicitOptions] run show ?thesis by simp
next
  case Unmodelled
  with arglet_tree [OF st t own, of explicitOptions] run show ?thesis by simp
qed


text \<open>The schema \<open>{a: 1, ids: ["p"]}\<close> of the small store is such a tree.\<close>

lemma small_store_tree:
  "plain_tree small_realm small_store (Ref 2) (Obj [(''a'', Num 1), (''ids'', Arr [Str ''p''])]) {2, 3}"
proof -
  have "plain_elems small_realm small_store [RStr ''p''] [Str ''p''] {}"
    using plain_elems_strings [of small_realm small_store "[''p'']"] by simp
  then have "plain_tree small_realm small_store (Ref 3) (Arr [Str ''p'']) {3}"
    by (rule tree_array [rotated]) (simp_all add: object_at_def small_store_def small_realm_def is_prototype_def)
  from props_cons [OF this props_nil, of "''ids''"]
  have "plain_props small_realm small_store [(''ids'', Data (Ref 3))] [(''ids'', Arr [Str ''p''])] {3}"
    by simp
  from props_cons [OF tree_num [where n = 1] this, of "''a''"]
  have "plain_props small_realm small_store [(''a'', Data (RNum 1)), (''ids'', Data (Ref 3))]
          [(''a'', Num 1), (''ids'', Arr [Str ''p''])] {3}"
    by simp
  then show ?thesis
    by (rule tree_object [rotated]) (simp_all add: object_at_def small_store_def small_realm_def is_prototype_def)
qed




end
